theory Spec2Isabelle
  imports Main "HOL-Library.Char_ord" "HOL-Library.List_Lexorder" "HOL-Library.AList"
begin

section \<open>Byte strings and constants (constants.hpp)\<close>

text \<open>
  Keys and values are \<^verbatim>\<open>std::string\<close>: sequences of bytes. They are modelled as
  \<^typ>\<open>string\<close> (a list of 8-bit characters). \<^verbatim>\<open>std::string\<close> compares with
  \<^verbatim>\<open>char_traits<char>::compare\<close>, that is byte-wise as unsigned values and a proper
  prefix first: this is the lexicographic order on \<^typ>\<open>char list\<close> over the order of
  characters by code.
\<close>

definition TOMBSTONE :: string where
  "TOMBSTONE = [CHR 0xFF, CHR 0xFF, CHR 0xFF, CHR 0xFF]"

definition INDEX_EXTENSION :: string where
  "INDEX_EXTENSION = ''.index''"

definition DATA_EXTENSION :: string where
  "DATA_EXTENSION = ''.data''"

definition DATA_DIR :: string where
  "DATA_DIR = ''data/''"

definition MAX_MEMTABLE_SIZE :: nat where
  "MAX_MEMTABLE_SIZE = 32 * 1024 * 1024"

definition MAX_SSTABLE_COUNT :: nat where
  "MAX_SSTABLE_COUNT = 100"

section \<open>Key-value pairs (key\_value.hpp)\<close>

record KeyValuePair =
  getKey :: string
  getValue :: string

text \<open>
  \<^verbatim>\<open>KeyValuePair::size\<close> is \<^verbatim>\<open>sizeof(std::string) * 2 + key.capacity() + value.capacity()\<close>.
  Both \<^verbatim>\<open>sizeof(std::string)\<close> and \<^verbatim>\<open>capacity()\<close> belong to the C++ standard library
  the program is built with, not to the repository: they are parameters of the model.
\<close>

record platform =
  sizeof_string :: nat
  capacity :: "string \<Rightarrow> nat"

definition KeyValuePair_size :: "platform \<Rightarrow> KeyValuePair \<Rightarrow> nat" where
  "KeyValuePair_size P kv =
     sizeof_string P * 2 + capacity P (getKey kv) + capacity P (getValue kv)"

text \<open>
  One concrete platform, used where a concrete run is evaluated: libstdc++ on a 64-bit
  target, where a \<^verbatim>\<open>std::string\<close> object has 32 bytes and a copied string has the
  capacity of its length, and at least the 15 bytes of the small-string buffer.
\<close>

definition libstdcxx :: platform where
  "libstdcxx = \<lparr>sizeof_string = 32, capacity = (\<lambda>s. max 15 (length s))\<rparr>"

section \<open>The skip list (skiplist.hpp)\<close>

datatype SentinelType = NEGATIVE_INFINITY | NORMAL | POSITIVE_INFINITY

text \<open>
  The source links \<^verbatim>\<open>Node\<close> objects by four pointers. \<^verbatim>\<open>SkipList::put\<close> builds them
  in one shape only: the new base-level node is linked after the node \<^verbatim>\<open>search\<close>
  returned, and each promotion links a copy of the key on the next level, after the
  nearest node to the left that has an \<^verbatim>\<open>up\<close> pointer, and ties it to the copy below by
  \<^verbatim>\<open>up\<close>/\<^verbatim>\<open>down\<close>. So every key owns one vertical tower, and the list of level \<open>l\<close> is the
  base list restricted to the towers that reach level \<open>l\<close>. The model keeps the base
  level as a list of NORMAL nodes in \<^verbatim>\<open>next\<close> order, each with its \<open>data\<close> (key and
  value of the base node, the only value \<^verbatim>\<open>get\<close> reads) and its \<open>height\<close>: the number
  of levels above the base on which the key is linked. The two sentinels of each level
  are implicit; the \<open>data\<close> of the base-level NEGATIVE\_INFINITY sentinel is kept in
  \<open>head_data\<close>, because \<^verbatim>\<open>get\<close> and \<^verbatim>\<open>put\<close> read and write it (they compare
  \<^verbatim>\<open>cur->data.getKey()\<close> without looking at \<^verbatim>\<open>cur->type\<close>).
\<close>

record Node =
  data :: KeyValuePair
  height :: nat

record SkipList =
  head_data :: KeyValuePair
  nodes :: "Node list"
  current_level :: nat
  totalSize :: nat

definition MAX_LEVEL :: nat where
  "MAX_LEVEL = 16"

text \<open>The constructor: two sentinels holding \<^verbatim>\<open>KeyValuePair()\<close>, level 0, size 0.\<close>

definition SkipList_new :: SkipList where
  "SkipList_new =
     \<lparr>head_data = \<lparr>getKey = [], getValue = []\<rparr>, nodes = [], current_level = 0, totalSize = 0\<rparr>"

text \<open>
  A position on a level is the number of base nodes up to and including the current
  node: 0 is the NEGATIVE\_INFINITY sentinel, \<open>Suc i\<close> the node \<open>nodes ! i\<close>.

  \<open>walk l key cur i rest\<close> is the inner loop of \<^verbatim>\<open>search\<close> on level \<open>l\<close>:
  \<^verbatim>\<open>while (cur->next->type != POSITIVE_INFINITY && cur->next->data.getKey() <= key) cur = cur->next;\<close>
  \<open>rest\<close> are the base nodes from index \<open>i\<close> on; a node lower than \<open>l\<close> is not linked
  on this level and is passed over; the end of the list is the POSITIVE\_INFINITY
  sentinel.
\<close>

fun walk :: "nat \<Rightarrow> string \<Rightarrow> nat \<Rightarrow> nat \<Rightarrow> Node list \<Rightarrow> nat" where
  "walk l k cur i [] = cur"
| "walk l k cur i (n # ns) =
     (if height n < l then walk l k cur (Suc i) ns
      else if getKey (data n) \<le> k then walk l k (Suc i) (Suc i) ns
      else cur)"

text \<open>
  The outer loop of \<^verbatim>\<open>search\<close>: walk right, then follow \<^verbatim>\<open>down\<close> while there is a level
  below; the node reached on the base level is returned.
\<close>

fun descend :: "nat \<Rightarrow> string \<Rightarrow> nat \<Rightarrow> Node list \<Rightarrow> nat" where
  "descend 0 k cur ns = walk 0 k cur cur (drop cur ns)"
| "descend (Suc l) k cur ns = descend l k (walk (Suc l) k cur cur (drop cur ns)) ns"

definition search :: "SkipList \<Rightarrow> string \<Rightarrow> nat" where
  "search sl k = descend (current_level sl) k 0 (nodes sl)"

definition node_type :: "nat \<Rightarrow> SentinelType" where
  "node_type cur = (if cur = 0 then NEGATIVE_INFINITY else NORMAL)"

definition node_data :: "SkipList \<Rightarrow> nat \<Rightarrow> KeyValuePair" where
  "node_data sl cur = (if cur = 0 then head_data sl else data (nodes sl ! (cur - 1)))"

definition SkipList_get :: "SkipList \<Rightarrow> string \<Rightarrow> bool \<times> string" where
  "SkipList_get sl k =
     (let cur = search sl k in
      if getKey (node_data sl cur) = k then (True, getValue (node_data sl cur))
      else (False, ''''))"

text \<open>
  \<^verbatim>\<open>find\<close> is the sibling of \<^verbatim>\<open>get\<close> that returns an iterator; unlike \<^verbatim>\<open>get\<close> it accepts
  the node only when its type is NORMAL. The iterator is modelled by the entry it points
  to, \<open>None\<close> for \<^verbatim>\<open>end()\<close>.
\<close>

definition SkipList_find :: "SkipList \<Rightarrow> string \<Rightarrow> KeyValuePair option" where
  "SkipList_find sl k =
     (let cur = search sl k in
      if getKey (node_data sl cur) = k \<and> node_type cur = NORMAL then Some (node_data sl cur)
      else None)"

text \<open>\<^verbatim>\<open>current->data.setValue(value)\<close> on the node at a position.\<close>

definition setValue_at :: "SkipList \<Rightarrow> nat \<Rightarrow> string \<Rightarrow> SkipList" where
  "setValue_at sl cur v =
     (if cur = 0 then sl\<lparr>head_data := (head_data sl)\<lparr>getValue := v\<rparr>\<rparr>
      else sl\<lparr>nodes := (nodes sl)[cur - 1 :=
             (nodes sl ! (cur - 1))\<lparr>data := (data (nodes sl ! (cur - 1)))\<lparr>getValue := v\<rparr>\<rparr>]\<rparr>)"

text \<open>
  The promotion loop of \<^verbatim>\<open>put\<close>: \<^verbatim>\<open>while (i < MAX_LEVEL && dis(gen) < P)\<close>. The draws
  of the random generator are an input of the model: a list of booleans, \<open>True\<close> for a
  draw below \<open>P\<close>, read from the front, and a list that ends counts as a failed draw.
  The result is the final \<open>i\<close> (the height of the new tower) and \<^verbatim>\<open>current_level\<close>,
  which grows by one each time \<open>i\<close> reaches it.
\<close>

fun promote :: "nat \<Rightarrow> bool list \<Rightarrow> nat \<Rightarrow> nat \<times> nat" where
  "promote i [] lvl = (i, lvl)"
| "promote i (c # cs) lvl =
     (if i < MAX_LEVEL \<and> c then promote (Suc i) cs (if i \<ge> lvl then Suc lvl else lvl)
      else (i, lvl))"

text \<open>\<^verbatim>\<open>totalSize\<close> is a \<^verbatim>\<open>size_t\<close>: 64 bits, and \<^verbatim>\<open>+=\<close> wraps.\<close>

definition SkipList_put :: "platform \<Rightarrow> bool list \<Rightarrow> SkipList \<Rightarrow> string \<Rightarrow> string \<Rightarrow> SkipList" where
  "SkipList_put P coins sl k v =
     (let current = search sl k in
      if getKey (node_data sl current) = k then setValue_at sl current v
      else
        let kv = \<lparr>getKey = k, getValue = v\<rparr>;
            (h, lvl) = promote 0 coins (current_level sl)
        in sl\<lparr>nodes := take current (nodes sl) @ [\<lparr>data = kv, height = h\<rparr>] @ drop current (nodes sl),
              current_level := lvl,
              totalSize := (totalSize sl + KeyValuePair_size P kv) mod 2 ^ 64\<rparr>)"

definition SkipList_getSize :: "SkipList \<Rightarrow> nat" where
  "SkipList_getSize sl = totalSize sl"

text \<open>
  Iteration from \<^verbatim>\<open>begin()\<close> to \<^verbatim>\<open>end()\<close>: down from the head to the base level, one
  step right past the sentinel, then along \<^verbatim>\<open>next\<close> until POSITIVE\_INFINITY.
\<close>

definition SkipList_entries :: "SkipList \<Rightarrow> KeyValuePair list" where
  "SkipList_entries sl = map data (nodes sl)"

section \<open>The memtable (memtable.hpp)\<close>

record MemTable =
  skiplist :: SkipList

definition MemTable_new :: MemTable where
  "MemTable_new = \<lparr>skiplist = SkipList_new\<rparr>"

definition MemTable_put :: "platform \<Rightarrow> bool list \<Rightarrow> MemTable \<Rightarrow> string \<Rightarrow> string \<Rightarrow> MemTable" where
  "MemTable_put P coins m k v = m\<lparr>skiplist := SkipList_put P coins (skiplist m) k v\<rparr>"

definition MemTable_get :: "MemTable \<Rightarrow> string \<Rightarrow> bool \<times> string" where
  "MemTable_get m k =
     (let result = SkipList_get (skiplist m) k in
      if \<not> fst result then (False, '''')
      else if snd result = TOMBSTONE then (False, snd result)
      else (True, snd result))"

definition MemTable_remove :: "platform \<Rightarrow> bool list \<Rightarrow> MemTable \<Rightarrow> string \<Rightarrow> MemTable" where
  "MemTable_remove P coins m k = m\<lparr>skiplist := SkipList_put P coins (skiplist m) k TOMBSTONE\<rparr>"

definition MemTable_getSize :: "MemTable \<Rightarrow> nat" where
  "MemTable_getSize m = SkipList_getSize (skiplist m)"

definition MemTable_entries :: "MemTable \<Rightarrow> KeyValuePair list" where
  "MemTable_entries m = SkipList_entries (skiplist m)"

section \<open>SSTables (sstable.hpp)\<close>

text \<open>
  The data directory is modelled as an association list from path to file content, in
  the order in which \<^verbatim>\<open>std::filesystem::directory_iterator\<close> lists the entries (an order
  the standard leaves unspecified). An input file stream opens when the path is in the
  list. Whether an output stream opens is decided by the environment, so it is an input of
  the model; a stream that opens creates the file, or truncates it.

  Integers are written as their bytes in memory
  (\<^verbatim>\<open>reinterpret_cast<const char *>(&x), sizeof(x)\<close>), least significant byte first on
  the targets the program is built for: \<open>le_bytes n x\<close> are the \<open>n\<close> bytes of an unsigned
  integer of that width holding \<open>x\<close> (so \<open>x\<close> is taken modulo \<open>256 ^ n\<close>), \<open>le_nat\<close>
  reads them back.
\<close>

type_synonym disk = "(string \<times> string) list"

fun le_bytes :: "nat \<Rightarrow> nat \<Rightarrow> string" where
  "le_bytes 0 x = []"
| "le_bytes (Suc n) x = char_of (x mod 256) # le_bytes n (x div 256)"

fun le_nat :: "string \<Rightarrow> nat" where
  "le_nat [] = 0"
| "le_nat (c # cs) = of_char c + 256 * le_nat cs"

definition u32_bytes :: "nat \<Rightarrow> string" where
  "u32_bytes x = le_bytes 4 x"

definition u64_bytes :: "nat \<Rightarrow> string" where
  "u64_bytes x = le_bytes 8 x"

definition KEYS_PER_INDEX_ENTRY :: nat where
  "KEYS_PER_INDEX_ENTRY = 10"

record SS_Table =
  index_filename :: string
  data_filename :: string
  index :: "(string \<times> nat) list"
  indexLoaded :: bool

text \<open>
  The writing loop of \<^verbatim>\<open>createFromMemTable\<close>, from entry \<open>i\<close> at data offset
  \<open>offset\<close>: the bytes appended to the index file and to the data file.
  \<^verbatim>\<open>key_size\<close> and \<^verbatim>\<open>value_size\<close> are \<^verbatim>\<open>uint32_t\<close> (the length is truncated to 32 bits,
  and that many bytes of the string are written); \<^verbatim>\<open>offset\<close> is a \<^verbatim>\<open>uint64_t\<close>.
\<close>

fun write_entries :: "nat \<Rightarrow> nat \<Rightarrow> KeyValuePair list \<Rightarrow> string \<times> string" where
  "write_entries i offset [] = ([], [])"
| "write_entries i offset (entry # entries) =
     (let key_size = length (getKey entry) mod 2 ^ 32;
          value_size = length (getValue entry) mod 2 ^ 32;
          index_part =
            (if i mod KEYS_PER_INDEX_ENTRY = 0
             then u32_bytes key_size @ take key_size (getKey entry) @ u64_bytes offset
             else []);
          data_part = u32_bytes key_size @ take key_size (getKey entry)
                      @ u32_bytes value_size @ take value_size (getValue entry);
          (index_rest, data_rest) =
            write_entries (Suc i) ((offset + (4 + key_size + 4 + value_size)) mod 2 ^ 64) entries
      in (index_part @ index_rest, data_part @ data_rest))"

text \<open>
  \<open>index_opens\<close> and \<open>data_opens\<close> say whether the two output streams open. The
  entry count is the size of a vector of objects in memory, far below \<open>2 ^ 64\<close>, so the
  count arithmetic is written without wrap-around.
\<close>

definition createFromMemTable :: "bool \<Rightarrow> bool \<Rightarrow> disk \<Rightarrow> string \<Rightarrow> MemTable \<Rightarrow> bool \<times> disk" where
  "createFromMemTable index_opens data_opens d filename memTable =
     (let d1 = (if index_opens then AList.update (filename @ INDEX_EXTENSION) [] d else d);
          d2 = (if data_opens then AList.update (filename @ DATA_EXTENSION) [] d1 else d1)
      in if \<not> index_opens \<or> \<not> data_opens then (False, d2)
         else
           let entries = MemTable_entries memTable;
               entries_count = length entries;
               sparse_index_count = (entries_count + KEYS_PER_INDEX_ENTRY - 1) div KEYS_PER_INDEX_ENTRY;
               (index_bytes, data_bytes) = write_entries 0 0 entries
           in (True,
               AList.update (filename @ DATA_EXTENSION) data_bytes
                 (AList.update (filename @ INDEX_EXTENSION)
                    (u64_bytes sparse_index_count @ index_bytes) d)))"

text \<open>
  Reading. A \<^verbatim>\<open>read\<close> that finds fewer bytes than asked sets \<^verbatim>\<open>eofbit\<close> and \<^verbatim>\<open>failbit\<close>
  and every later \<^verbatim>\<open>read\<close> does nothing. Where the source then goes on with a size or an
  offset that was never written (an uninitialised variable), C++ defines no behaviour:
  the model returns \<open>None\<close> there, and only there.

  The loop of \<^verbatim>\<open>loadIndex\<close>, with the number of entries still to read.
\<close>

fun read_index_entries :: "nat \<Rightarrow> string \<Rightarrow> (string \<times> nat) list option" where
  "read_index_entries 0 bs = Some []"
| "read_index_entries (Suc n) bs =
     (if length bs < 4 then None
      else
        let key_size = le_nat (take 4 bs);
            bs1 = drop 4 bs
        in if length bs1 < key_size then None
           else
             let key = take key_size bs1;
                 bs2 = drop key_size bs1
             in if length bs2 < 8 then None
                else
                  let offset = le_nat (take 8 bs2)
                  in map_option ((#) (key, offset)) (read_index_entries n (drop 8 bs2)))"

definition loadIndex :: "disk \<Rightarrow> SS_Table \<Rightarrow> (bool \<times> SS_Table) option" where
  "loadIndex d t =
     (case map_of d (index_filename t) of
        None \<Rightarrow> Some (False, t)
      | Some bs \<Rightarrow>
          if length bs < 8 then None
          else
            (case read_index_entries (le_nat (take 8 bs)) (drop 8 bs) of
               None \<Rightarrow> None
             | Some entries \<Rightarrow> Some (True, t\<lparr>index := entries\<rparr>)))"

text \<open>The two constructors; both set \<^verbatim>\<open>indexLoaded = loadIndex()\<close>.\<close>

definition SS_Table_new2 :: "disk \<Rightarrow> string \<Rightarrow> string \<Rightarrow> SS_Table option" where
  "SS_Table_new2 d iname dname =
     (case loadIndex d \<lparr>index_filename = iname, data_filename = dname, index = [], indexLoaded = False\<rparr> of
        None \<Rightarrow> None
      | Some (ok, t) \<Rightarrow> Some (t\<lparr>indexLoaded := ok\<rparr>))"

definition SS_Table_new :: "disk \<Rightarrow> string \<Rightarrow> SS_Table option" where
  "SS_Table_new d filename = SS_Table_new2 d (filename @ INDEX_EXTENSION) (filename @ DATA_EXTENSION)"

text \<open>The binary search of \<^verbatim>\<open>findStartOffset\<close>.\<close>

function bsearch :: "(string \<times> nat) list \<Rightarrow> string \<Rightarrow> nat \<Rightarrow> nat \<Rightarrow> nat" where
  "bsearch idx k left right =
     (if left < right then
        let mid = left + (right - left + 1) div 2
        in if fst (idx ! mid) \<le> k then bsearch idx k mid right
           else bsearch idx k left (mid - 1)
      else left)"
  by pat_completeness auto
termination
  by (relation "measure (\<lambda>(idx, k, left, right). right - left)") auto

declare bsearch.simps [simp del]

definition findStartOffset :: "SS_Table \<Rightarrow> string \<Rightarrow> nat option" where
  "findStartOffset t k =
     (if index t = [] then None
      else if k < fst (index t ! 0) then Some (snd (index t ! 0))
      else Some (snd (index t ! bsearch (index t) k 0 (length (index t) - 1))))"

text \<open>
  The scanning loop of \<^verbatim>\<open>getValue\<close> on the bytes from the stream position on.
  The strings are created with \<^verbatim>\<open>key_size\<close> (\<^verbatim>\<open>value_size\<close>) zero bytes, and a short
  read fills in the bytes there are.
\<close>

function scan :: "string \<Rightarrow> string \<Rightarrow> (bool \<times> string) option" where
  "scan k bs =
     (if length bs < 4 then Some (False, [])
      else
        let key_size = le_nat (take 4 bs);
            bs1 = drop 4 bs;
            stored_key = take key_size bs1 @ replicate (key_size - length bs1) (CHR 0x00)
        in if stored_key > k then Some (False, [])
           else if length bs1 < key_size then None
           else
             let bs2 = drop key_size bs1
             in if length bs2 < 4 then None
                else
                  let value_size = le_nat (take 4 bs2);
                      bs3 = drop 4 bs2;
                      v = take value_size bs3 @ replicate (value_size - length bs3) (CHR 0x00)
                  in if stored_key = k then
                       (if v = TOMBSTONE then Some (False, v) else Some (True, v))
                     else if length bs3 < value_size then Some (False, [])
                     else scan k (drop value_size bs3))"
  by pat_completeness auto
termination
  by (relation "measure (\<lambda>(k, bs). length bs)") auto

declare scan.simps [simp del]

text \<open>
  \<^verbatim>\<open>seekg\<close> takes a signed stream position: an offset of \<open>2 ^ 63\<close> or more makes it fail
  without \<^verbatim>\<open>eofbit\<close>, and the loop then reads nothing into \<^verbatim>\<open>key_size\<close>.
\<close>

definition SS_Table_getValue :: "disk \<Rightarrow> SS_Table \<Rightarrow> string \<Rightarrow> (bool \<times> string) option" where
  "SS_Table_getValue d t k =
     (if \<not> indexLoaded t then Some (False, [])
      else
        (case findStartOffset t k of
           None \<Rightarrow> Some (False, [])
         | Some start_offset \<Rightarrow>
             (case map_of d (data_filename t) of
                None \<Rightarrow> Some (False, [])
              | Some bs \<Rightarrow>
                  if start_offset \<ge> 2 ^ 63 then None
                  else scan k (drop start_offset bs))))"

section \<open>The LSM tree (lsm.hpp)\<close>

text \<open>
  The state of the engine: the members \<^verbatim>\<open>activeMemTable\<close>, \<^verbatim>\<open>memTables\<close> and
  \<^verbatim>\<open>sstables\<close> (both deques oldest first), and the data directory \<^verbatim>\<open>SS_TABLE_PATH\<close> the
  engine reads and writes, as \<open>files\<close>. The mutexes, condition variables and threads are
  not part of the model: every public operation, one flush of the flush worker and one
  compaction pass are atomic steps, taken in some order.
\<close>

record LSMTree =
  activeMemTable :: MemTable
  memTables :: "MemTable list"
  sstables :: "SS_Table list"
  files :: disk

definition rotate_memtable :: "LSMTree \<Rightarrow> LSMTree" where
  "rotate_memtable s =
     s\<lparr>memTables := memTables s @ [activeMemTable s], activeMemTable := MemTable_new\<rparr>"

definition LSMTree_put :: "platform \<Rightarrow> bool list \<Rightarrow> LSMTree \<Rightarrow> string \<Rightarrow> string \<Rightarrow> LSMTree" where
  "LSMTree_put P coins s k v =
     (let s1 = s\<lparr>activeMemTable := MemTable_put P coins (activeMemTable s) k v\<rparr>
      in if MemTable_getSize (activeMemTable s1) \<ge> MAX_MEMTABLE_SIZE then rotate_memtable s1
         else s1)"

definition LSMTree_remove :: "platform \<Rightarrow> bool list \<Rightarrow> LSMTree \<Rightarrow> string \<Rightarrow> LSMTree" where
  "LSMTree_remove P coins s k =
     s\<lparr>activeMemTable := MemTable_put P coins (activeMemTable s) k TOMBSTONE\<rparr>"

text \<open>
  The three blocks of \<^verbatim>\<open>get\<close>. The loops run over the deques from \<^verbatim>\<open>rbegin()\<close> to
  \<^verbatim>\<open>rend()\<close>: the functions take the tables in that order.
\<close>

fun get_sstables :: "disk \<Rightarrow> SS_Table list \<Rightarrow> string \<Rightarrow> (bool \<times> string) option" where
  "get_sstables d [] k = Some (False, [])"
| "get_sstables d (t # ts) k =
     (case SS_Table_getValue d t k of
        None \<Rightarrow> None
      | Some result \<Rightarrow>
          if fst result then Some result
          else if \<not> fst result \<and> snd result = TOMBSTONE then Some (False, snd result)
          else get_sstables d ts k)"

fun get_memTables :: "disk \<Rightarrow> MemTable list \<Rightarrow> SS_Table list \<Rightarrow> string \<Rightarrow> (bool \<times> string) option" where
  "get_memTables d [] ts k = get_sstables d ts k"
| "get_memTables d (m # ms) ts k =
     (let result = MemTable_get m k
      in if fst result then Some result
         else if \<not> fst result \<and> snd result = TOMBSTONE then Some (False, snd result)
         else get_memTables d ms ts k)"

definition LSMTree_get :: "LSMTree \<Rightarrow> string \<Rightarrow> (bool \<times> string) option" where
  "LSMTree_get s k =
     (let result = MemTable_get (activeMemTable s) k
      in if fst result then Some result
         else if \<not> fst result \<and> snd result = TOMBSTONE then Some (False, snd result)
         else get_memTables (files s) (rev (memTables s)) (rev (sstables s)) k)"

text \<open>
  \<^verbatim>\<open>std::to_string\<close> of the millisecond timestamp (not negative: the clock is past the
  epoch), and the file name stem built from it. The clock is an input of the model.
\<close>

function to_string :: "nat \<Rightarrow> string" where
  "to_string n =
     (if n < 10 then [char_of (48 + n)] else to_string (n div 10) @ [char_of (48 + n mod 10)])"
  by pat_completeness auto
termination
  by (relation "measure (\<lambda>n. n)") auto

declare to_string.simps [simp del]

definition sstable_filename :: "nat \<Rightarrow> string" where
  "sstable_filename timestamp = DATA_DIR @ ''sstable_'' @ to_string timestamp"

definition flush_memtable :: "bool \<Rightarrow> bool \<Rightarrow> nat \<Rightarrow> LSMTree \<Rightarrow> MemTable \<Rightarrow> LSMTree option" where
  "flush_memtable index_opens data_opens timestamp s memtable =
     (let filename = sstable_filename timestamp;
          (success, d) = createFromMemTable index_opens data_opens (files s) filename memtable
      in if success then
           (case SS_Table_new d filename of
              None \<Rightarrow> None
            | Some sstable \<Rightarrow> Some (s\<lparr>files := d, sstables := sstables s @ [sstable]\<rparr>))
         else Some (s\<lparr>files := d\<rparr>))"

text \<open>One turn of the loop of \<^verbatim>\<open>flush_worker\<close>, once it is woken up.\<close>

definition flush_worker_step :: "bool \<Rightarrow> bool \<Rightarrow> nat \<Rightarrow> LSMTree \<Rightarrow> LSMTree option" where
  "flush_worker_step index_opens data_opens timestamp s =
     (case memTables s of
        [] \<Rightarrow> Some s
      | memtable_to_flush # ms \<Rightarrow>
          flush_memtable index_opens data_opens timestamp (s\<lparr>memTables := ms\<rparr>) memtable_to_flush)"

text \<open>
  \<^verbatim>\<open>merged_data\<close> is a \<^verbatim>\<open>std::map\<close>: an ordered map, here a list of pairs in ascending
  key order. \<open>insert_absent\<close> is
  \<^verbatim>\<open>if (merged_data.find(key) == merged_data.end()) merged_data[key] = value;\<close>.
\<close>

fun insert_absent :: "string \<Rightarrow> string \<Rightarrow> (string \<times> string) list \<Rightarrow> (string \<times> string) list" where
  "insert_absent k v [] = [(k, v)]"
| "insert_absent k v ((k', v') # m) =
     (if k = k' then (k', v') # m
      else if k < k' then (k, v) # (k', v') # m
      else (k', v') # insert_absent k v m)"

text \<open>The loop of \<^verbatim>\<open>perform_compaction\<close> over the records of one data file.\<close>

function read_records :: "string \<Rightarrow> (string \<times> string) list \<Rightarrow> (string \<times> string) list option" where
  "read_records bs merged_data =
     (if length bs < 4 then Some merged_data
      else
        let key_size = le_nat (take 4 bs);
            bs1 = drop 4 bs
        in if length bs1 < key_size then None
           else
             let k = take key_size bs1;
                 bs2 = drop key_size bs1
             in if length bs2 < 4 then None
                else
                  let value_size = le_nat (take 4 bs2);
                      bs3 = drop 4 bs2;
                      v = take value_size bs3 @ replicate (value_size - length bs3) (CHR 0x00);
                      merged_data' = insert_absent k v merged_data
                  in if length bs3 < value_size then Some merged_data'
                     else read_records (drop value_size bs3) merged_data')"
  by pat_completeness auto
termination
  by (relation "measure (\<lambda>(bs, m). length bs)") auto

declare read_records.simps [simp del]

text \<open>The loop over the tables to compact; a data file that does not open is skipped.\<close>

fun merge_tables :: "disk \<Rightarrow> SS_Table list \<Rightarrow> (string \<times> string) list \<Rightarrow> (string \<times> string) list option" where
  "merge_tables d [] merged_data = Some merged_data"
| "merge_tables d (sstable # ts) merged_data =
     (case map_of d (data_filename sstable) of
        None \<Rightarrow> merge_tables d ts merged_data
      | Some bs \<Rightarrow>
          (case read_records bs merged_data of
             None \<Rightarrow> None
           | Some merged_data' \<Rightarrow> merge_tables d ts merged_data'))"

text \<open>
  The loop that puts the merged entries into the new memtable, leaving out the
  tombstones. Each \<^verbatim>\<open>put\<close> draws from the random generator: \<open>coins\<close> holds the draws
  of one \<^verbatim>\<open>put\<close> after the other.
\<close>

fun fill_memtable :: "platform \<Rightarrow> bool list list \<Rightarrow> (string \<times> string) list \<Rightarrow> MemTable \<Rightarrow> MemTable" where
  "fill_memtable P coins [] m = m"
| "fill_memtable P coins (x # xs) m =
     (if snd x \<noteq> TOMBSTONE
      then fill_memtable P (tl coins) xs
             (MemTable_put P (case coins of [] \<Rightarrow> [] | c # cs \<Rightarrow> c) m (fst x) (snd x))
      else fill_memtable P coins xs m)"

text \<open>\<^verbatim>\<open>std::filesystem::remove\<close> of the two files of every compacted table.\<close>

fun remove_files :: "SS_Table list \<Rightarrow> disk \<Rightarrow> disk" where
  "remove_files [] d = d"
| "remove_files (sstable # ts) d =
     remove_files ts (AList.delete (data_filename sstable) (AList.delete (index_filename sstable) d))"

text \<open>
  \<^verbatim>\<open>std::sort\<close> by index file name is modelled by the insertion sort \<^const>\<open>sort_key\<close>;
  the two agree whenever the names are distinct (for equal names \<^verbatim>\<open>std::sort\<close> leaves
  the order open).
\<close>

definition perform_compaction ::
  "platform \<Rightarrow> bool list list \<Rightarrow> bool \<Rightarrow> bool \<Rightarrow> nat \<Rightarrow> LSMTree \<Rightarrow> LSMTree option" where
  "perform_compaction P coins index_opens data_opens timestamp s =
     (if length (sstables s) < MAX_SSTABLE_COUNT then Some s
      else
        let tables_taken = take MAX_SSTABLE_COUNT (sstables s);
            s1 = s\<lparr>sstables := drop MAX_SSTABLE_COUNT (sstables s)\<rparr>
        in if tables_taken = [] then Some s1
           else
             let tables_to_compact = sort_key index_filename tables_taken
             in (case merge_tables (files s1) tables_to_compact [] of
                   None \<Rightarrow> None
                 | Some merged_data \<Rightarrow>
                     let merged_memtable = fill_memtable P coins merged_data MemTable_new;
                         filename = sstable_filename timestamp;
                         (success, d) =
                           createFromMemTable index_opens data_opens (files s1) filename merged_memtable
                     in if success then
                          (let d' = remove_files tables_to_compact d
                           in case SS_Table_new d' filename of
                                None \<Rightarrow> None
                              | Some new_sstable \<Rightarrow>
                                  Some (s1\<lparr>files := d', sstables := sstables s1 @ [new_sstable]\<rparr>))
                        else Some (s1\<lparr>files := d\<rparr>)))"

text \<open>
  \<^verbatim>\<open>std::string::find\<close>: the position of the first occurrence, \<open>None\<close> for \<^verbatim>\<open>npos\<close>.
\<close>

fun string_find :: "string \<Rightarrow> string \<Rightarrow> nat option" where
  "string_find [] pat = (if pat = [] then Some 0 else None)"
| "string_find (c # cs) pat =
     (if take (length pat) (c # cs) = pat then Some 0 else map_option Suc (string_find cs pat))"

text \<open>
  The second loop of \<^verbatim>\<open>load_existing_sstables\<close> over the paths of the directory; the
  constructor loads the index, and \<^verbatim>\<open>loadIndex\<close> is called once more for the test.
\<close>

fun load_files :: "disk \<Rightarrow> string list \<Rightarrow> SS_Table list \<Rightarrow> SS_Table list option" where
  "load_files d [] acc = Some acc"
| "load_files d (file # fs) acc =
     (case string_find file INDEX_EXTENSION of
        None \<Rightarrow> load_files d fs acc
      | Some pos \<Rightarrow>
          let data_file = take pos file
          in (case SS_Table_new2 d file (data_file @ DATA_EXTENSION) of
                None \<Rightarrow> None
              | Some sstable \<Rightarrow>
                  (case loadIndex d sstable of
                     None \<Rightarrow> None
                   | Some (ok, sstable') \<Rightarrow>
                       if ok then load_files d fs (acc @ [sstable']) else load_files d fs acc)))"

definition load_existing_sstables :: "LSMTree \<Rightarrow> LSMTree option" where
  "load_existing_sstables s =
     (case load_files (files s) (map fst (files s)) (sstables s) of
        None \<Rightarrow> None
      | Some loaded \<Rightarrow> Some (s\<lparr>sstables := sort_key index_filename loaded\<rparr>))"

text \<open>The constructor, on the data directory it finds.\<close>

definition LSMTree_new :: "disk \<Rightarrow> LSMTree option" where
  "LSMTree_new d =
     load_existing_sstables \<lparr>activeMemTable = MemTable_new, memTables = [], sstables = [], files = d\<rparr>"

text \<open>Runs of the engine: the public operations and the two background steps in any order.\<close>

datatype operation =
    Put "bool list" string string
  | Remove "bool list" string
  | Flush bool bool nat
  | Compact "bool list list" bool bool nat

fun step :: "platform \<Rightarrow> LSMTree \<Rightarrow> operation \<Rightarrow> LSMTree option" where
  "step P s (Put coins k v) = Some (LSMTree_put P coins s k v)"
| "step P s (Remove coins k) = Some (LSMTree_remove P coins s k)"
| "step P s (Flush index_opens data_opens timestamp) =
     flush_worker_step index_opens data_opens timestamp s"
| "step P s (Compact coins index_opens data_opens timestamp) =
     perform_compaction P coins index_opens data_opens timestamp s"

fun run :: "platform \<Rightarrow> LSMTree \<Rightarrow> operation list \<Rightarrow> LSMTree option" where
  "run P s [] = Some s"
| "run P s (x # xs) = (case step P s x of None \<Rightarrow> None | Some s' \<Rightarrow> run P s' xs)"

section \<open>Abstraction of the skip list\<close>

text \<open>
  What the proofs say about a skip list: the keys and values of its base nodes, the number
  of base nodes with a key up to \<open>k\<close> (the position \<^verbatim>\<open>search\<close> is to return), and the
  invariant of the lists the program builds: base keys strictly ascending, none of them
  empty, and the head sentinel holding the empty key.
\<close>

definition nkey :: "Node \<Rightarrow> string" where
  "nkey n = getKey (data n)"

definition keys_upto :: "string \<Rightarrow> Node list \<Rightarrow> nat \<Rightarrow> bool" where
  "keys_upto k ns r = (r \<le> length ns \<and> (\<forall>j<r. nkey (ns ! j) \<le> k))"

definition rank :: "string \<Rightarrow> Node list \<Rightarrow> nat" where
  "rank k ns = length (takeWhile (\<lambda>n. nkey n \<le> k) ns)"

definition nval :: "Node \<Rightarrow> string" where
  "nval n = getValue (data n)"

definition kvs :: "Node list \<Rightarrow> (string \<times> string) list" where
  "kvs ns = map (\<lambda>n. (nkey n, nval n)) ns"

definition SkipList_inv :: "SkipList \<Rightarrow> bool" where
  "SkipList_inv sl = (sorted_wrt (<) (map nkey (nodes sl)) \<and> [] \<notin> nkey ` set (nodes sl)
      \<and> getKey (head_data sl) = [])"

section \<open>Abstraction of the engine\<close>

text \<open>
  The invariant the runs of the engine keep for the active memtable; the answers of the
  layers to a lookup, in the order the specification gives (active memtable, sealed
  memtables newest first, SSTables newest first), and the first definitive one among them;
  and the engine constructed on an empty data directory.
\<close>

definition active_inv :: "LSMTree \<Rightarrow> bool" where
  "active_inv s = SkipList_inv (skiplist (activeMemTable s))"

fun first_definitive :: "(bool \<times> string) option list \<Rightarrow> (bool \<times> string) option" where
  "first_definitive [] = Some (False, [])"
| "first_definitive (None # rs) = None"
| "first_definitive (Some r # rs) =
     (if fst r then Some r
      else if snd r = TOMBSTONE then Some (False, TOMBSTONE)
      else first_definitive rs)"

definition layer_answers :: "LSMTree \<Rightarrow> string \<Rightarrow> (bool \<times> string) option list" where
  "layer_answers s k =
     Some (MemTable_get (activeMemTable s) k)
     # map (\<lambda>m. Some (MemTable_get m k)) (rev (memTables s))
     @ map (\<lambda>t. SS_Table_getValue (files s) t k) (rev (sstables s))"

definition fresh :: LSMTree where
  "fresh = \<lparr>activeMemTable = MemTable_new, memTables = [], sstables = [], files = []\<rparr>"

text \<open>
  Two engines for the concrete runs below: one with a tombstone for \<open>a\<close> in the active
  memtable over a sealed memtable that holds a value for \<open>a\<close>; and the engine after one
  put of a value of 33554352 bytes into a fresh engine, whose active memtable counts
  33554431 bytes with libstdc++, one byte below \<^const>\<open>MAX_MEMTABLE_SIZE\<close>.
\<close>

definition example_engine :: LSMTree where
  "example_engine =
     \<lparr>activeMemTable = MemTable_put libstdcxx [] MemTable_new ''a'' TOMBSTONE,
      memTables = [MemTable_put libstdcxx [True] MemTable_new ''a'' ''1''],
      sstables = [], files = []\<rparr>"

definition nearly_full_engine :: LSMTree where
  "nearly_full_engine = LSMTree_put libstdcxx [] fresh ''a'' (replicate 33554352 (CHR ''x''))"

definition record_bytes :: "string \<times> string \<Rightarrow> string" where
  "record_bytes kv = u32_bytes (length (fst kv)) @ fst kv @ u32_bytes (length (snd kv)) @ snd kv"

definition data_bytes :: "(string \<times> string) list \<Rightarrow> string" where
  "data_bytes rs = concat (map record_bytes rs)"

definition index_entry_bytes :: "string \<times> nat \<Rightarrow> string" where
  "index_entry_bytes e = u32_bytes (length (fst e)) @ fst e @ u64_bytes (snd e)"

definition index_of_records :: "(string \<times> string) list \<Rightarrow> (string \<times> nat) list" where
  "index_of_records rs =
     map (\<lambda>q. (fst (rs ! (10 * q)), length (data_bytes (take (10 * q) rs))))
       [0..<(length rs + 9) div 10]"

definition fits32 :: "(string \<times> string) list \<Rightarrow> bool" where
  "fits32 rs = (\<forall>kv\<in>set rs. length (fst kv) < 2 ^ 32 \<and> length (snd kv) < 2 ^ 32)"

definition MemTable_records :: "MemTable \<Rightarrow> (string \<times> string) list" where
  "MemTable_records m = map (\<lambda>e. (getKey e, getValue e)) (MemTable_entries m)"

definition lookup_result :: "string option \<Rightarrow> bool \<times> string" where
  "lookup_result r = (case r of None \<Rightarrow> (False, []) | Some v \<Rightarrow> if v = TOMBSTONE then (False, v) else (True, v))"

definition SkipList_run :: "platform \<Rightarrow> (bool list \<times> string \<times> string) list \<Rightarrow> SkipList" where
  "SkipList_run P puts = foldl (\<lambda>sl (coins, k, v). SkipList_put P coins sl k v) SkipList_new puts"

definition created_table :: "string \<Rightarrow> (string \<times> string) list \<Rightarrow> SS_Table" where
  "created_table f rs =
     \<lparr>index_filename = f @ INDEX_EXTENSION, data_filename = f @ DATA_EXTENSION,
      index = index_of_records rs, indexLoaded = True\<rparr>"

definition example_puts :: "(bool list \<times> string \<times> string) list" where
  "example_puts = [([True], ''b'', ''2''), ([], ''a'', TOMBSTONE)]"



fun is_call :: "operation \<Rightarrow> bool" where
  "is_call (Put coins k v) = True"
| "is_call (Remove coins k) = True"
| "is_call x = False"



text \<open>
  For the loader: a path that contains the index extension (the test of
  \<^verbatim>\<open>load_existing_sstables\<close>); a data directory that holds one index file, with one
  entry, and no data file; and the handle the loader builds for it.
\<close>

definition has_index_extension :: "string \<Rightarrow> bool" where
  "has_index_extension file = (string_find file INDEX_EXTENSION \<noteq> None)"

definition orphan_index_directory :: disk where
  "orphan_index_directory =
     [(''data/sstable_1.index'', u64_bytes 1 @ index_entry_bytes (''a'', 0))]"

definition orphan_index_table :: SS_Table where
  "orphan_index_table =
     \<lparr>index_filename = ''data/sstable_1.index'', data_filename = ''data/sstable_1.data'',
      index = [(''a'', 0)], indexLoaded = True\<rparr>"

text \<open>
  The merge loop of a compaction pass, seen as a fold: the records of the batch, in the
  order they are read, are inserted one after the other into the merged map by
  \<^const>\<open>insert_absent\<close>. The entries of the merged map that go into the new memtable are
  those whose value is not the tombstone.
\<close>

definition merge_records :: "(string \<times> string) list \<Rightarrow> (string \<times> string) list \<Rightarrow> (string \<times> string) list" where
  "merge_records rs m = foldl (\<lambda>m kv. insert_absent (fst kv) (snd kv) m) m rs"

definition live :: "(string \<times> string) list \<Rightarrow> (string \<times> string) list" where
  "live rs = filter (\<lambda>kv. snd kv \<noteq> TOMBSTONE) rs"

text \<open>
  The data file and the index file of a table with the records \<open>rs\<close>, as
  \<^verbatim>\<open>createFromMemTable\<close> writes them. An engine that is due for a compaction: a hundred
  SSTables, written at the times 1000 to 1099, that hold the key \<open>k\<close> with the value
  \<open>old\<close>, and a newer SSTable, written at the time 200000, that holds it with the value
  \<open>new\<close>; the memtables are empty. It is the engine after \<^verbatim>\<open>put(k, old)\<close> and the flushes
  that wrote the hundred tables, \<^verbatim>\<open>put(k, new)\<close> and one more flush.
\<close>

definition table_files :: "string \<Rightarrow> (string \<times> string) list \<Rightarrow> (string \<times> string) \<times> (string \<times> string)" where
  "table_files f rs =
     ((f @ DATA_EXTENSION, data_bytes rs),
      (f @ INDEX_EXTENSION,
       u64_bytes ((length rs + 9) div 10) @ concat (map index_entry_bytes (index_of_records rs))))"

definition old_table :: "nat \<Rightarrow> SS_Table" where
  "old_table i = created_table (sstable_filename (1000 + i)) [(''k'', ''old'')]"

definition new_table :: SS_Table where
  "new_table = created_table (sstable_filename 200000) [(''k'', ''new'')]"

definition overdue_engine :: LSMTree where
  "overdue_engine =
     \<lparr>activeMemTable = MemTable_new, memTables = [],
      sstables = map old_table [0..<MAX_SSTABLE_COUNT] @ [new_table],
      files = map (\<lambda>i. fst (table_files (sstable_filename (1000 + i)) [(''k'', ''old'')])) [0..<MAX_SSTABLE_COUNT]
            @ map (\<lambda>i. snd (table_files (sstable_filename (1000 + i)) [(''k'', ''old'')])) [0..<MAX_SSTABLE_COUNT]
            @ [fst (table_files (sstable_filename 200000) [(''k'', ''new'')]),
               snd (table_files (sstable_filename 200000) [(''k'', ''new'')])]\<rparr>"

section \<open>The skip list: search, get and put\<close>

lemma walk0: "walk 0 k i i rest = i + length (takeWhile (\<lambda>n. nkey n \<le> k) rest)"
  by (induction rest arbitrary: i) (simp_all add: nkey_def)

lemma keys_upto_takeWhile:
  assumes "keys_upto k ns r"
  shows "takeWhile (\<lambda>n. nkey n \<le> k) ns = take r ns @ takeWhile (\<lambda>n. nkey n \<le> k) (drop r ns)"
proof -
  have "\<forall>x\<in>set (take r ns). nkey x \<le> k"
    using assms by (auto simp: keys_upto_def in_set_conv_nth)
  then have "takeWhile (\<lambda>n. nkey n \<le> k) (take r ns @ drop r ns)
      = take r ns @ takeWhile (\<lambda>n. nkey n \<le> k) (drop r ns)"
    by (intro takeWhile_append2) auto
  then show ?thesis by simp
qed

lemma walk0_rank:
  assumes "keys_upto k ns r"
  shows "walk 0 k r r (drop r ns) = rank k ns"
proof -
  have "length (take r ns) = r" using assms by (simp add: keys_upto_def)
  then show ?thesis
    unfolding rank_def walk0 keys_upto_takeWhile [OF assms] by simp
qed

lemma walk_keys_upto:
  assumes "sorted (map nkey ns)"
  shows "keys_upto k ns cur \<Longrightarrow> cur \<le> i \<Longrightarrow> rest = drop i ns \<Longrightarrow> keys_upto k ns (walk l k cur i rest)"
proof (induction rest arbitrary: cur i)
  case Nil
  then show ?case by simp
next
  case (Cons n rest)
  from Cons.prems(3) have i: "i < length ns"
    by (metis drop_all list.distinct(1) not_le)
  have n: "n = ns ! i" and rest: "rest = drop (Suc i) ns"
    using Cons.prems(3) i by (simp_all add: Cons_nth_drop_Suc [symmetric])
  show ?case
  proof (cases "height n < l")
    case True
    then show ?thesis using Cons.IH [of cur "Suc i"] Cons.prems(1,2) rest by simp
  next
    case False
    show ?thesis
    proof (cases "getKey (data n) \<le> k")
      case True
      have "keys_upto k ns (Suc i)"
        unfolding keys_upto_def
      proof (intro conjI allI impI)
        show "Suc i \<le> length ns" using i by simp
      next
        fix j assume "j < Suc i"
        then have "j \<le> i" by simp
        then have "map nkey ns ! j \<le> map nkey ns ! i"
          using assms i by (simp add: sorted_iff_nth_mono del: nth_map)
        then show "nkey (ns ! j) \<le> k"
          using True n i \<open>j \<le> i\<close> by (simp add: nkey_def)
      qed
      then show ?thesis using Cons.IH [of "Suc i" "Suc i"] rest True False by simp
    next
      case F2: False
      then show ?thesis using False Cons.prems(1) by simp
    qed
  qed
qed

lemma descend_rank:
  assumes "sorted (map nkey ns)"
  shows "keys_upto k ns cur \<Longrightarrow> descend l k cur ns = rank k ns"
proof (induction l arbitrary: cur)
  case 0
  then show ?case by (simp add: walk0_rank)
next
  case (Suc l)
  have "keys_upto k ns (walk (Suc l) k cur cur (drop cur ns))"
    using walk_keys_upto [OF assms Suc.prems] by simp
  then show ?case using Suc.IH by simp
qed

lemma search_rank:
  "sorted (map nkey (nodes sl)) \<Longrightarrow> search sl k = rank k (nodes sl)"
  unfolding search_def by (rule descend_rank) (simp_all add: keys_upto_def)

lemma map_fst_kvs: "map fst (kvs ns) = map nkey ns"
  by (simp add: kvs_def comp_def)

lemma fst_set_kvs: "fst ` set (kvs ns) = nkey ` set ns"
  by (simp add: kvs_def image_image)

lemma map_of_kvs_None: "k \<notin> nkey ` set ns \<Longrightarrow> map_of (kvs ns) k = None"
  by (simp add: map_of_eq_None_iff fst_set_kvs)

lemma sorted_dropWhile_gt:
  "sorted (map nkey ns) \<Longrightarrow> n \<in> set (dropWhile (\<lambda>n. nkey n \<le> k) ns) \<Longrightarrow> k < nkey n"
proof (induction ns)
  case Nil
  then show ?case by simp
next
  case (Cons a ns)
  show ?case
  proof (cases "nkey a \<le> k")
    case True
    then show ?thesis using Cons by simp
  next
    case False
    then have "n = a \<or> n \<in> set ns" using Cons.prems by simp
    moreover have "\<forall>x\<in>set ns. nkey a \<le> nkey x" using Cons.prems(1) by simp
    ultimately show ?thesis using False by force
  qed
qed

lemma sorted_le_last:
  "sorted (map nkey ns) \<Longrightarrow> n \<in> set ns \<Longrightarrow> nkey n \<le> nkey (last ns)"
proof (induction ns)
  case Nil
  then show ?case by simp
next
  case (Cons a ns)
  then show ?case by (cases "ns = []") auto
qed

lemma rank_nth_last:
  assumes "0 < rank k ns"
  shows "ns ! (rank k ns - 1) = last (takeWhile (\<lambda>n. nkey n \<le> k) ns)"
proof -
  let ?A = "takeWhile (\<lambda>n. nkey n \<le> k) ns"
  have ne: "?A \<noteq> []" using assms by (auto simp: rank_def)
  have "last ?A = ?A ! (length ?A - 1)" using ne by (rule last_conv_nth)
  also have "\<dots> = ns ! (length ?A - 1)"
    using ne by (intro takeWhile_nth) simp
  finally show ?thesis by (simp add: rank_def)
qed

lemma rank_hit:
  assumes s: "sorted_wrt (<) (map nkey ns)" and r: "0 < rank k ns"
    and hit: "nkey (ns ! (rank k ns - 1)) = k"
  shows "map_of (kvs ns) k = Some (nval (ns ! (rank k ns - 1)))"
proof -
  have "rank k ns - 1 < length ns"
    using r by (metis diff_less length_takeWhile_le less_le_trans rank_def zero_less_one)
  then have "ns ! (rank k ns - 1) \<in> set ns" by simp
  then have "(k, nval (ns ! (rank k ns - 1))) \<in> set (kvs ns)"
    using hit by (force simp: kvs_def)
  moreover have "distinct (map fst (kvs ns))"
    using s by (simp add: map_fst_kvs strict_sorted_iff)
  ultimately show ?thesis by simp
qed

lemma rank_miss:
  assumes s: "sorted_wrt (<) (map nkey ns)"
    and miss: "rank k ns = 0 \<or> nkey (ns ! (rank k ns - 1)) \<noteq> k"
  shows "k \<notin> nkey ` set ns"
proof
  let ?P = "\<lambda>n. nkey n \<le> k"
  let ?A = "takeWhile ?P ns"
  have srt: "sorted (map nkey ns)" using s by (simp add: strict_sorted_iff)
  assume "k \<in> nkey ` set ns"
  then obtain n where n: "n \<in> set ns" "nkey n = k" by auto
  have "n \<notin> set (dropWhile ?P ns)"
    using sorted_dropWhile_gt [OF srt, of n k] n by auto
  moreover have "set ns = set ?A \<union> set (dropWhile ?P ns)"
    by (metis set_append takeWhile_dropWhile_id)
  ultimately have nA: "n \<in> set ?A" using n by auto
  then have r: "0 < rank k ns" by (auto simp: rank_def)
  have "sorted (map nkey ?A)"
    using srt by (metis sorted_append map_append takeWhile_dropWhile_id)
  then have "nkey n \<le> nkey (last ?A)" using nA by (rule sorted_le_last)
  moreover have "nkey (last ?A) \<le> k"
    using r last_in_set [of ?A] set_takeWhileD [of "last ?A" ?P ns] by (auto simp: rank_def)
  ultimately have "nkey (last ?A) = k" using n by simp
  then show False using miss r rank_nth_last [OF r] by simp
qed

lemma rank_empty_key: "[] \<notin> nkey ` set ns \<Longrightarrow> rank [] ns = 0"
  by (cases ns) (auto simp: rank_def)

lemma SkipList_get_inv:
  assumes "SkipList_inv sl"
  shows "SkipList_get sl k =
     (if k = [] then (True, getValue (head_data sl))
      else case map_of (kvs (nodes sl)) k of None \<Rightarrow> (False, []) | Some v \<Rightarrow> (True, v))"
proof -
  have s: "sorted_wrt (<) (map nkey (nodes sl))" and ne: "[] \<notin> nkey ` set (nodes sl)"
    and h: "getKey (head_data sl) = []"
    using assms by (simp_all add: SkipList_inv_def)
  have srt: "sorted (map nkey (nodes sl))" using s by (simp add: strict_sorted_iff)
  note sr = search_rank [OF srt]
  show ?thesis
  proof (cases "k = []")
    case True
    then show ?thesis
      using rank_empty_key [OF ne] h by (simp add: SkipList_get_def sr node_data_def)
  next
    case False
    show ?thesis
    proof (cases "rank k (nodes sl) = 0")
      case True
      then have "k \<notin> nkey ` set (nodes sl)" using rank_miss [OF s] by blast
      then have "map_of (kvs (nodes sl)) k = None" by (rule map_of_kvs_None)
      then show ?thesis using True h False
        by (auto simp add: SkipList_get_def sr node_data_def)
    next
      case r: False
      show ?thesis
      proof (cases "nkey (nodes sl ! (rank k (nodes sl) - 1)) = k")
        case True
        then show ?thesis using rank_hit [OF s _ True] r False
          by (simp add: SkipList_get_def sr node_data_def nkey_def nval_def)
      next
        case F: False
        then have "k \<notin> nkey ` set (nodes sl)" using rank_miss [OF s] by blast
        then have "map_of (kvs (nodes sl)) k = None" by (rule map_of_kvs_None)
        then show ?thesis using F r False
          by (simp add: SkipList_get_def sr node_data_def nkey_def nval_def)
      qed
    qed
  qed
qed

lemma map_of_mid:
  "k \<notin> fst ` set A \<Longrightarrow> map_of (A @ (k, v) # B) = (map_of (A @ B))(k \<mapsto> v)"
  by (induction A) (auto simp: fun_eq_iff)

lemma hit_iff:
  assumes "SkipList_inv sl" and "k \<noteq> []"
  shows "(getKey (node_data sl (search sl k)) = k) = (k \<in> nkey ` set (nodes sl))"
proof -
  have s: "sorted_wrt (<) (map nkey (nodes sl))" and h: "getKey (head_data sl) = []"
    using assms by (simp_all add: SkipList_inv_def)
  have srt: "sorted (map nkey (nodes sl))" using s by (simp add: strict_sorted_iff)
  note sr = search_rank [OF srt]
  let ?r = "rank k (nodes sl)"
  show ?thesis
  proof (cases "?r = 0")
    case True
    then have "k \<notin> nkey ` set (nodes sl)" using rank_miss [OF s] by blast
    then show ?thesis using True h assms(2) by (auto simp: sr node_data_def)
  next
    case False
    have lt: "?r - 1 < length (nodes sl)"
      using False by (metis diff_less length_takeWhile_le less_le_trans rank_def zero_less_one neq0_conv)
    show ?thesis
    proof (cases "nkey (nodes sl ! (?r - 1)) = k")
      case True
      then have "k \<in> nkey ` set (nodes sl)" using lt by (metis imageI nth_mem)
      then show ?thesis using True False by (simp add: sr node_data_def nkey_def)
    next
      case F: False
      then have "k \<notin> nkey ` set (nodes sl)" using rank_miss [OF s] by blast
      then show ?thesis using F False by (simp add: sr node_data_def nkey_def)
    qed
  qed
qed

lemma SkipList_put_empty_key:
  assumes "SkipList_inv sl"
  shows "SkipList_put P coins sl [] v = sl\<lparr>head_data := (head_data sl)\<lparr>getValue := v\<rparr>\<rparr>"
proof -
  have s: "sorted_wrt (<) (map nkey (nodes sl))" and ne: "[] \<notin> nkey ` set (nodes sl)"
    and h: "getKey (head_data sl) = []"
    using assms by (simp_all add: SkipList_inv_def)
  have srt: "sorted (map nkey (nodes sl))" using s by (simp add: strict_sorted_iff)
  show ?thesis
    using rank_empty_key [OF ne] h
    by (simp add: SkipList_put_def search_rank [OF srt] node_data_def setValue_at_def)
qed

lemma SkipList_put_present:
  assumes "SkipList_inv sl" and "k \<noteq> []" and "k \<in> nkey ` set (nodes sl)"
  shows "SkipList_put P coins sl k v =
     sl\<lparr>nodes := (nodes sl)[rank k (nodes sl) - 1 :=
           (nodes sl ! (rank k (nodes sl) - 1))\<lparr>data := \<lparr>getKey = k, getValue = v\<rparr>\<rparr>]\<rparr>"
    and "0 < rank k (nodes sl)" and "nkey (nodes sl ! (rank k (nodes sl) - 1)) = k"
proof -
  have s: "sorted_wrt (<) (map nkey (nodes sl))"
    using assms by (simp_all add: SkipList_inv_def)
  have srt: "sorted (map nkey (nodes sl))" using s by (simp add: strict_sorted_iff)
  note sr = search_rank [OF srt]
  have "\<not> (rank k (nodes sl) = 0 \<or> nkey (nodes sl ! (rank k (nodes sl) - 1)) \<noteq> k)"
    using rank_miss [OF s, of k] assms(3) by blast
  then show r: "0 < rank k (nodes sl)" and hit: "nkey (nodes sl ! (rank k (nodes sl) - 1)) = k"
    by simp_all
  have "getKey (node_data sl (search sl k)) = k" using hit_iff [OF assms(1,2)] assms(3) by simp
  moreover have "(data (nodes sl ! (rank k (nodes sl) - 1)))\<lparr>getValue := v\<rparr> = \<lparr>getKey = k, getValue = v\<rparr>"
    using hit by (simp add: nkey_def)
  ultimately show "SkipList_put P coins sl k v =
     sl\<lparr>nodes := (nodes sl)[rank k (nodes sl) - 1 :=
           (nodes sl ! (rank k (nodes sl) - 1))\<lparr>data := \<lparr>getKey = k, getValue = v\<rparr>\<rparr>]\<rparr>"
    using r by (simp add: SkipList_put_def setValue_at_def sr [symmetric] Let_def)
qed

lemma SkipList_put_absent:
  assumes "SkipList_inv sl" and "k \<noteq> []" and "k \<notin> nkey ` set (nodes sl)"
  shows "SkipList_put P coins sl k v =
     sl\<lparr>nodes := takeWhile (\<lambda>n. nkey n \<le> k) (nodes sl)
            @ [\<lparr>data = \<lparr>getKey = k, getValue = v\<rparr>, height = fst (promote 0 coins (current_level sl))\<rparr>]
            @ dropWhile (\<lambda>n. nkey n \<le> k) (nodes sl),
        current_level := snd (promote 0 coins (current_level sl)),
        totalSize := (totalSize sl + KeyValuePair_size P \<lparr>getKey = k, getValue = v\<rparr>) mod 2 ^ 64\<rparr>"
proof -
  have s: "sorted_wrt (<) (map nkey (nodes sl))"
    using assms by (simp_all add: SkipList_inv_def)
  have srt: "sorted (map nkey (nodes sl))" using s by (simp add: strict_sorted_iff)
  note sr = search_rank [OF srt]
  have "getKey (node_data sl (search sl k)) \<noteq> k" using hit_iff [OF assms(1,2)] assms(3) by simp
  then show ?thesis
    by (simp add: SkipList_put_def sr rank_def takeWhile_eq_take [symmetric]
        dropWhile_eq_drop [symmetric] Let_def case_prod_unfold)
qed

lemma kvs_update:
  assumes "sorted_wrt (<) (map nkey ns)" "i < length ns" "nkey (ns ! i) = k"
  shows "map_of (kvs (ns[i := (ns ! i)\<lparr>data := \<lparr>getKey = k, getValue = v\<rparr>\<rparr>])) = (map_of (kvs ns))(k \<mapsto> v)"
    and "map nkey (ns[i := (ns ! i)\<lparr>data := \<lparr>getKey = k, getValue = v\<rparr>\<rparr>]) = map nkey ns"
proof -
  let ?n = "(ns ! i)\<lparr>data := \<lparr>getKey = k, getValue = v\<rparr>\<rparr>"
  have d: "distinct (map nkey ns)" using assms(1) by (simp add: strict_sorted_iff)
  have ns: "ns = take i ns @ ns ! i # drop (Suc i) ns" using assms(2) by (rule id_take_nth_drop)
  have "distinct (map nkey (take i ns @ ns ! i # drop (Suc i) ns))" using d ns by simp
  then have notin: "k \<notin> fst ` set (kvs (take i ns))"
    using assms(3) by (auto simp: fst_set_kvs)
  have e1: "kvs (ns[i := ?n]) = kvs (take i ns) @ (k, v) # kvs (drop (Suc i) ns)"
    using assms(2) by (simp add: upd_conv_take_nth_drop kvs_def nkey_def nval_def)
  have e2: "kvs ns = kvs (take i ns) @ (k, nval (ns ! i)) # kvs (drop (Suc i) ns)"
    using assms(3) by (subst ns) (simp add: kvs_def)
  have m1: "map_of (kvs (ns[i := ?n])) = (map_of (kvs (take i ns) @ kvs (drop (Suc i) ns)))(k \<mapsto> v)"
    by (simp only: e1 map_of_mid [OF notin])
  have m2: "map_of (kvs ns) = (map_of (kvs (take i ns) @ kvs (drop (Suc i) ns)))(k \<mapsto> nval (ns ! i))"
    by (subst e2) (rule map_of_mid [OF notin])
  show "map_of (kvs (ns[i := ?n])) = (map_of (kvs ns))(k \<mapsto> v)"
    by (simp only: m1 m2 fun_upd_upd)
  show "map nkey (ns[i := ?n]) = map nkey ns"
    using assms(2,3) by (simp add: map_update nkey_def list_update_same_conv)
qed

lemma SkipList_put_inv:
  assumes "SkipList_inv sl"
  shows "SkipList_inv (SkipList_put P coins sl k v)"
proof (cases "k = []")
  case True
  then show ?thesis
    using assms SkipList_put_empty_key [OF assms] by (simp add: SkipList_inv_def)
next
  case False
  have s: "sorted_wrt (<) (map nkey (nodes sl))" and ne: "[] \<notin> nkey ` set (nodes sl)"
    and h: "getKey (head_data sl) = []"
    using assms by (simp_all add: SkipList_inv_def)
  have srt: "sorted (map nkey (nodes sl))" using s by (simp add: strict_sorted_iff)
  show ?thesis
  proof (cases "k \<in> nkey ` set (nodes sl)")
    case True
    note p = SkipList_put_present [OF assms False True]
    have lt: "rank k (nodes sl) - 1 < length (nodes sl)"
      using p(2) by (metis diff_less length_takeWhile_le less_le_trans rank_def zero_less_one)
    have "map nkey (nodes (SkipList_put P coins sl k v)) = map nkey (nodes sl)"
      using kvs_update(2) [OF s lt p(3)] by (simp add: p(1))
    moreover have "head_data (SkipList_put P coins sl k v) = head_data sl" by (simp add: p(1))
    ultimately show ?thesis using assms
      by (simp add: SkipList_inv_def del: set_map add: set_map [symmetric])
  next
    case F: False
    let ?P = "\<lambda>n. nkey n \<le> k"
    let ?A = "takeWhile ?P (nodes sl)" and ?B = "dropWhile ?P (nodes sl)"
    note p = SkipList_put_absent [OF assms False F]
    have AB: "nodes sl = ?A @ ?B" by simp
    have sAB: "sorted_wrt (<) (map nkey (?A @ ?B))" using s by simp
    have A: "\<forall>a\<in>set ?A. nkey a < k"
    proof
      fix a assume a: "a \<in> set ?A"
      then have "nkey a \<le> k" by (rule set_takeWhileD [THEN conjunct2])
      moreover have "a \<in> set (nodes sl)" using a by (rule set_takeWhileD [THEN conjunct1])
      ultimately show "nkey a < k" using F by (metis imageI le_neq_trans)
    qed
    have B: "\<forall>b\<in>set ?B. k < nkey b" using sorted_dropWhile_gt [OF srt] by blast
    have "sorted_wrt (<) (map nkey (?A @ [\<lparr>data = \<lparr>getKey = k, getValue = v\<rparr>, height = fst (promote 0 coins (current_level sl))\<rparr>] @ ?B))"
      using sAB A B unfolding map_append sorted_wrt_append
      by (auto simp: nkey_def)
    moreover have "set (nodes sl) = set ?A \<union> set ?B" by (metis set_append AB)
    ultimately show ?thesis using ne h False
      by (auto simp add: SkipList_inv_def p nkey_def)
  qed
qed

lemma SkipList_put_map:
  assumes "SkipList_inv sl" and "k \<noteq> []"
  shows "map_of (kvs (nodes (SkipList_put P coins sl k v))) = (map_of (kvs (nodes sl)))(k \<mapsto> v)"
proof (cases "k \<in> nkey ` set (nodes sl)")
  case True
  have s: "sorted_wrt (<) (map nkey (nodes sl))" using assms by (simp add: SkipList_inv_def)
  note p = SkipList_put_present [OF assms True]
  have lt: "rank k (nodes sl) - 1 < length (nodes sl)"
    using p(2) by (metis diff_less length_takeWhile_le less_le_trans rank_def zero_less_one)
  show ?thesis using kvs_update(1) [OF s lt p(3)] by (simp add: p(1))
next
  case False
  let ?P = "\<lambda>n. nkey n \<le> k"
  let ?A = "takeWhile ?P (nodes sl)" and ?B = "dropWhile ?P (nodes sl)"
  note p = SkipList_put_absent [OF assms False]
  have "set ?A \<subseteq> set (nodes sl)" by (auto dest: set_takeWhileD)
  then have "k \<notin> fst ` set (kvs ?A)" using False by (auto simp: fst_set_kvs)
  then have "map_of (kvs ?A @ (k, v) # kvs ?B) = (map_of (kvs ?A @ kvs ?B))(k \<mapsto> v)"
    by (rule map_of_mid)
  moreover have "kvs ?A @ kvs ?B = kvs (nodes sl)"
    unfolding kvs_def map_append [symmetric] by simp
  moreover have "kvs (nodes (SkipList_put P coins sl k v)) = kvs ?A @ (k, v) # kvs ?B"
    by (simp add: p kvs_def nkey_def nval_def)
  ultimately show ?thesis by (simp only:)
qed

lemma SkipList_put_head:
  assumes "SkipList_inv sl" and "k \<noteq> []"
  shows "head_data (SkipList_put P coins sl k v) = head_data sl"
proof (cases "k \<in> nkey ` set (nodes sl)")
  case True
  then show ?thesis by (simp add: SkipList_put_present(1) [OF assms])
next
  case False
  then show ?thesis by (simp add: SkipList_put_absent [OF assms])
qed

lemma SkipList_put_totalSize:
  assumes "SkipList_inv sl"
  shows "totalSize (SkipList_put P coins sl k v) =
    (if k = [] \<or> k \<in> nkey ` set (nodes sl) then totalSize sl
     else (totalSize sl + KeyValuePair_size P \<lparr>getKey = k, getValue = v\<rparr>) mod 2 ^ 64)"
proof (cases "k = []")
  case True
  then show ?thesis by (simp add: SkipList_put_empty_key [OF assms])
next
  case False
  show ?thesis
  proof (cases "k \<in> nkey ` set (nodes sl)")
    case True
    then show ?thesis using False by (simp add: SkipList_put_present(1) [OF assms False True])
  next
    case F: False
    then show ?thesis using False by (simp add: SkipList_put_absent [OF assms False F])
  qed
qed

lemma SkipList_new_inv: "SkipList_inv SkipList_new"
  by (simp add: SkipList_inv_def SkipList_new_def)

section \<open>The engine: lookups and runs\<close>

lemma MemTable_get_inv:
  assumes "SkipList_inv (skiplist m)" and "k \<noteq> []"
  shows "MemTable_get m k =
     (case map_of (kvs (nodes (skiplist m))) k of
        None \<Rightarrow> (False, [])
      | Some v \<Rightarrow> if v = TOMBSTONE then (False, TOMBSTONE) else (True, v))"
  using assms(2) by (simp add: MemTable_get_def SkipList_get_inv [OF assms(1)] split: option.splits)

lemma MemTable_get_new: "k \<noteq> [] \<Longrightarrow> MemTable_get MemTable_new k = (False, [])"
  by (simp add: MemTable_get_inv MemTable_new_def SkipList_new_inv) (simp add: SkipList_new_def kvs_def)

lemma MemTable_get_put:
  assumes "SkipList_inv (skiplist m)" and "k \<noteq> []"
  shows "MemTable_get (MemTable_put P coins m k v) k =
     (if v = TOMBSTONE then (False, TOMBSTONE) else (True, v))"
proof -
  have "SkipList_inv (skiplist (MemTable_put P coins m k v))"
    using SkipList_put_inv [OF assms(1)] by (simp add: MemTable_put_def)
  then show ?thesis
    using SkipList_put_map [OF assms] assms(2)
    by (simp add: MemTable_get_inv) (simp add: MemTable_put_def)
qed

lemma get_sstables_first:
  "get_sstables d ts k = first_definitive (map (\<lambda>t. SS_Table_getValue d t k) ts)"
  by (induction ts) (auto split: option.splits simp: prod_eq_iff)

lemma get_memTables_first:
  "get_memTables d ms ts k =
     first_definitive (map (\<lambda>m. Some (MemTable_get m k)) ms @ map (\<lambda>t. SS_Table_getValue d t k) ts)"
  by (induction ms) (auto simp: get_sstables_first Let_def prod_eq_iff)

lemma LSMTree_get_first: "LSMTree_get s k = first_definitive (layer_answers s k)"
  by (auto simp: LSMTree_get_def layer_answers_def get_memTables_first Let_def prod_eq_iff)

lemma TOMBSTONE_nonempty: "TOMBSTONE \<noteq> []"
  by (simp add: TOMBSTONE_def)

lemma scan_absent_empty: "scan k bs = Some (False, v) \<Longrightarrow> v = [] \<or> v = TOMBSTONE"
proof (induction k bs rule: scan.induct)
  case (1 k bs)
  show ?case
    using "1.prems" "1.IH"
    by (subst (asm) scan.simps) (auto simp: Let_def split: if_splits)
qed

lemma getValue_absent_empty:
  "SS_Table_getValue d t k = Some (False, v) \<Longrightarrow> v = [] \<or> v = TOMBSTONE"
  by (auto simp: SS_Table_getValue_def split: if_splits option.splits dest: scan_absent_empty)

lemma getValue_absent_empty': "Some (False, v) = SS_Table_getValue d t k \<Longrightarrow> v = [] \<or> v = TOMBSTONE"
  by (rule getValue_absent_empty) simp

lemma MemTable_get_absent_empty': "(False, v) = MemTable_get m k \<Longrightarrow> v = [] \<or> v = TOMBSTONE"
  by (auto simp: MemTable_get_def Let_def split: if_splits)

lemma MemTable_get_absent_empty: "MemTable_get m k = (False, v) \<Longrightarrow> v = [] \<or> v = TOMBSTONE"
  by (auto simp: MemTable_get_def Let_def split: if_splits)

lemma first_definitive_absent:
  assumes "\<And>v. Some (False, v) \<in> set rs \<Longrightarrow> v = [] \<or> v = TOMBSTONE"
  shows "first_definitive rs = Some (False, []) \<longleftrightarrow> (\<forall>r\<in>set rs. r = Some (False, []))"
  using assms
proof (induction rs)
  case Nil
  then show ?case by simp
next
  case (Cons r rs)
  show ?case
  proof (cases r)
    case None
    then show ?thesis by auto
  next
    case (Some x)
    obtain b v where x: "x = (b, v)" by (cases x)
    have "\<not> b \<Longrightarrow> v = [] \<or> v = TOMBSTONE" using Cons.prems [of v] Some x by auto
    then show ?thesis using Cons.IH Cons.prems Some x TOMBSTONE_nonempty by auto
  qed
qed

lemma LSMTree_get_absent_iff:
  "LSMTree_get s k = Some (False, []) \<longleftrightarrow> (\<forall>r\<in>set (layer_answers s k). r = Some (False, []))"
  unfolding LSMTree_get_first
  by (rule first_definitive_absent)
    (auto simp: layer_answers_def dest: MemTable_get_absent_empty' getValue_absent_empty')

lemma first_definitive_stop:
  assumes "\<forall>r\<in>set pre. r = Some (False, [])"
  shows "first_definitive (pre @ r # post) = first_definitive (r # post)"
  using assms TOMBSTONE_nonempty by (induction pre) auto

lemma active_inv_put: "active_inv s \<Longrightarrow> active_inv (LSMTree_put P c s k v)"
  by (simp add: active_inv_def LSMTree_put_def Let_def rotate_memtable_def MemTable_new_def
      SkipList_new_inv MemTable_put_def SkipList_put_inv)

lemma active_inv_remove: "active_inv s \<Longrightarrow> active_inv (LSMTree_remove P c s k)"
  by (simp add: active_inv_def LSMTree_remove_def MemTable_put_def SkipList_put_inv)

lemma flush_active: "flush_worker_step i d t s = Some s' \<Longrightarrow> activeMemTable s' = activeMemTable s"
  by (auto simp: flush_worker_step_def flush_memtable_def Let_def
      split: list.splits prod.splits if_splits option.splits)

lemma compaction_active:
  "perform_compaction P c i d t s = Some s' \<Longrightarrow> activeMemTable s' = activeMemTable s"
  by (auto simp: perform_compaction_def Let_def split: prod.splits if_splits option.splits)

lemma active_inv_step:
  assumes "step P s x = Some s'" and "active_inv s"
  shows "active_inv s'"
proof (cases x)
  case (Put c k v)
  then show ?thesis using assms active_inv_put [of s P c k v] by auto
next
  case (Remove c k)
  then show ?thesis using assms active_inv_remove [of s P c k] by auto
next
  case (Flush i d t)
  then show ?thesis using assms flush_active [of i d t s s'] by (auto simp: active_inv_def)
next
  case (Compact c i d t)
  then show ?thesis using assms compaction_active [of P c i d t s s'] by (auto simp: active_inv_def)
qed

lemma active_inv_run: "run P s xs = Some s' \<Longrightarrow> active_inv s \<Longrightarrow> active_inv s'"
  by (induction xs arbitrary: s) (auto split: option.splits dest: active_inv_step)

lemma active_inv_new: "LSMTree_new d = Some s \<Longrightarrow> active_inv s"
  by (auto simp: LSMTree_new_def load_existing_sstables_def active_inv_def MemTable_new_def
      SkipList_new_inv split: option.splits)

lemma get_after_put:
  assumes "active_inv s" and "k \<noteq> []"
  shows "LSMTree_get (LSMTree_put P c s k v) k =
     Some (if v = TOMBSTONE then (False, TOMBSTONE) else (True, v))"
proof -
  have inv: "SkipList_inv (skiplist (activeMemTable s))" using assms(1) by (simp add: active_inv_def)
  note g = MemTable_get_put [OF inv assms(2), of P c v]
  show ?thesis
  proof (cases "MemTable_getSize (MemTable_put P c (activeMemTable s) k v) \<ge> MAX_MEMTABLE_SIZE")
    case True
    then show ?thesis
      using g assms(2) TOMBSTONE_nonempty
      by (auto simp add: LSMTree_put_def Let_def rotate_memtable_def LSMTree_get_def MemTable_get_new)
  next
    case False
    then show ?thesis
      using g by (simp add: LSMTree_put_def Let_def LSMTree_get_def)
  qed
qed

lemma get_after_remove:
  assumes "active_inv s" and "k \<noteq> []"
  shows "LSMTree_get (LSMTree_remove P c s k) k = Some (False, TOMBSTONE)"
proof -
  have inv: "SkipList_inv (skiplist (activeMemTable s))" using assms(1) by (simp add: active_inv_def)
  show ?thesis
    using MemTable_get_put [OF inv assms(2), of P c TOMBSTONE]
    by (simp add: LSMTree_remove_def LSMTree_get_def)
qed

lemma LSMTree_new_empty: "LSMTree_new [] = Some fresh"
  by (simp add: LSMTree_new_def load_existing_sstables_def fresh_def)

section \<open>Lookup in a skip list (C6)\<close>

text \<open>
  C6. Lookup of a key that was never inserted is to return \<open>{found: false, value: ""}\<close>,
  the empty key included. On a list just constructed, \<^verbatim>\<open>search("")\<close> stays on the
  NEGATIVE\_INFINITY sentinel, whose data is \<^verbatim>\<open>KeyValuePair()\<close> with the key \<open>""\<close>, and
  \<^verbatim>\<open>get\<close> compares that key without testing the node type: it reports the empty key as
  found, with the value \<open>""\<close>. The sibling \<^verbatim>\<open>find\<close>, which tests
  \<^verbatim>\<open>node->type == SentinelType::NORMAL\<close>, reports it absent.
\<close>

theorem C6_get_reports_empty_key_found:
  "SkipList_get SkipList_new [] = (True, []) \<and> SkipList_find SkipList_new [] = None"
  by (simp add: SkipList_get_def SkipList_find_def SkipList_new_def search_def node_data_def
      node_type_def)

section \<open>The size counter (C9)\<close>

text \<open>
  C9. A put of a key not present before is to add the size of the entry to the counter.
  The first put of the empty key finds the key of the head sentinel equal to it, takes the
  branch for a present key, and writes the value into the sentinel: no node is linked and
  the counter stays 0, although the entry would count 32 * 2 + 15 + 15 = 94 bytes.
\<close>

theorem C9_first_put_of_empty_key_not_counted:
  "totalSize (SkipList_put libstdcxx [] SkipList_new [] ''v'') = 0
   \<and> SkipList_entries (SkipList_put libstdcxx [] SkipList_new [] ''v'') = []
   \<and> KeyValuePair_size libstdcxx \<lparr>getKey = [], getValue = ''v''\<rparr> = 94"
  by (simp add: SkipList_put_def SkipList_new_def search_def node_data_def setValue_at_def
      SkipList_entries_def KeyValuePair_size_def libstdcxx_def)

section \<open>The order of the layers in a lookup (C2)\<close>


lemma MemTable_new_inv: "SkipList_inv (skiplist MemTable_new)"
  by (simp add: MemTable_new_def SkipList_new_inv)

lemma example_engine_answers:
  "layer_answers example_engine ''a'' = [Some (False, TOMBSTONE), Some (True, ''1'')]"
  by (simp add: layer_answers_def example_engine_def MemTable_get_put MemTable_new_inv)
     (simp add: TOMBSTONE_def)

text \<open>
  C2. \<^verbatim>\<open>get\<close> consults the active memtable, then the sealed memtables newest first,
  then the SSTables newest first (\<^const>\<open>layer_answers\<close> lists their answers in this
  order), and stops at the first definitive answer: the three blocks of the source
  compute \<^const>\<open>first_definitive\<close> of that list. In particular a layer that reports the
  key present, below layers that all report it absent, decides the result
  \<open>(true, value)\<close> whatever the older layers hold; so does a layer that reports the
  tombstone, with \<open>(false, tombstone)\<close>; and \<open>(false, "")\<close> is returned exactly when
  every layer reports the key absent. (An answer \<open>None\<close> stands for a lookup in a
  truncated data file, where the source reads an uninitialised size.)
\<close>

theorem C2_get_consults_layers_in_order:
  "LSMTree_get s k = first_definitive (layer_answers s k)
   \<and> (\<forall>pre v post. layer_answers s k = pre @ Some (True, v) # post
          \<and> (\<forall>r\<in>set pre. r = Some (False, []))
        \<longrightarrow> LSMTree_get s k = Some (True, v))
   \<and> (\<forall>pre post. layer_answers s k = pre @ Some (False, TOMBSTONE) # post
          \<and> (\<forall>r\<in>set pre. r = Some (False, []))
        \<longrightarrow> LSMTree_get s k = Some (False, TOMBSTONE))
   \<and> (LSMTree_get s k = Some (False, []) \<longleftrightarrow> (\<forall>r\<in>set (layer_answers s k). r = Some (False, [])))"
proof (intro conjI allI impI)
  show "LSMTree_get s k = first_definitive (layer_answers s k)" by (rule LSMTree_get_first)
next
  fix pre v post
  assume "layer_answers s k = pre @ Some (True, v) # post \<and> (\<forall>r\<in>set pre. r = Some (False, []))"
  then show "LSMTree_get s k = Some (True, v)"
    by (simp add: LSMTree_get_first first_definitive_stop)
next
  fix pre post
  assume "layer_answers s k = pre @ Some (False, TOMBSTONE) # post \<and> (\<forall>r\<in>set pre. r = Some (False, []))"
  then show "LSMTree_get s k = Some (False, TOMBSTONE)"
    by (simp add: LSMTree_get_first first_definitive_stop)
next
  show "LSMTree_get s k = Some (False, []) \<longleftrightarrow> (\<forall>r\<in>set (layer_answers s k). r = Some (False, []))"
    by (rule LSMTree_get_absent_iff)
qed

theorem C2_get_consults_layers_in_order_witness:
  "layer_answers example_engine ''a'' = [] @ Some (False, TOMBSTONE) # [Some (True, ''1'')]
   \<and> LSMTree_get example_engine ''a'' = Some (False, TOMBSTONE)"
proof -
  have a: "layer_answers example_engine ''a'' = [] @ Some (False, TOMBSTONE) # [Some (True, ''1'')]"
    by (simp add: example_engine_answers)
  have "\<forall>r\<in>set []. r = Some (False, [])" by simp
  with a have "LSMTree_get example_engine ''a'' = Some (False, TOMBSTONE)"
    using C2_get_consults_layers_in_order [of example_engine "''a''"] by blast
  with a show ?thesis by simp
qed

text \<open>The engine one byte below the threshold.\<close>

lemma nearly_full_active:
  "skiplist (activeMemTable nearly_full_engine) =
     \<lparr>head_data = \<lparr>getKey = [], getValue = []\<rparr>,
      nodes = [\<lparr>data = \<lparr>getKey = ''a'', getValue = replicate 33554352 (CHR ''x'')\<rparr>, height = 0\<rparr>],
      current_level = 0, totalSize = 33554431\<rparr>"
  by (simp add: nearly_full_engine_def fresh_def LSMTree_put_def MemTable_put_def MemTable_new_def
      SkipList_new_def SkipList_put_def search_def node_data_def
      KeyValuePair_size_def libstdcxx_def MemTable_getSize_def SkipList_getSize_def
      MAX_MEMTABLE_SIZE_def Let_def rotate_memtable_def)

lemma nearly_full_memTables: "memTables nearly_full_engine = []"
  by (simp add: nearly_full_engine_def fresh_def LSMTree_put_def MemTable_put_def MemTable_new_def
      SkipList_new_def SkipList_put_def search_def node_data_def
      KeyValuePair_size_def libstdcxx_def MemTable_getSize_def SkipList_getSize_def
      MAX_MEMTABLE_SIZE_def Let_def rotate_memtable_def)

lemma nearly_full_size_after:
  "MemTable_getSize (MemTable_put libstdcxx [] (activeMemTable nearly_full_engine) ''b'' TOMBSTONE) = 33554525"
  by (simp add: MemTable_getSize_def SkipList_getSize_def MemTable_put_def nearly_full_active
      SkipList_put_def search_def node_data_def KeyValuePair_size_def libstdcxx_def TOMBSTONE_def)

section \<open>Read after write (C3)\<close>

















lemma run_of_calls: "\<forall>x\<in>set xs. is_call x \<Longrightarrow> \<exists>s'. run P s xs = Some s'"
proof (induction xs arbitrary: s)
  case Nil
  then show ?case by simp
next
  case (Cons x xs)
  then show ?case by (cases x) auto
qed

lemma sstables_put [simp]: "sstables (LSMTree_put P c s k v) = sstables s"
  by (simp add: LSMTree_put_def Let_def rotate_memtable_def)

lemma sstables_remove [simp]: "sstables (LSMTree_remove P c s k) = sstables s"
  by (simp add: LSMTree_remove_def)




text \<open>
  Once the memtable that took the put is flushed, the answer depends on that flush. When
  the two output files do not open, \<^verbatim>\<open>flush_memtable\<close> drops the memtable (the data loss
  the specification accepts in its section 7): on the engine one byte below the
  threshold, \<open>put(k, v)\<close> seals the memtable, a flush that cannot open its files
  discards it, and a get of \<open>k\<close> then reports the key absent.
\<close>

lemma nearly_full_put_rotates:
  "LSMTree_put libstdcxx [] nearly_full_engine ''k'' ''v'' =
     nearly_full_engine\<lparr>memTables := [MemTable_put libstdcxx [] (activeMemTable nearly_full_engine) ''k'' ''v''],
                         activeMemTable := MemTable_new\<rparr>"
proof -
  have "MemTable_getSize (MemTable_put libstdcxx [] (activeMemTable nearly_full_engine) ''k'' ''v'') = 33554525"
    by (simp add: MemTable_getSize_def SkipList_getSize_def MemTable_put_def nearly_full_active
        SkipList_put_def search_def node_data_def KeyValuePair_size_def libstdcxx_def)
  then show ?thesis
    by (simp add: LSMTree_put_def Let_def MAX_MEMTABLE_SIZE_def rotate_memtable_def
        nearly_full_memTables)
qed

lemma failed_flush_loses_the_put:
  "flush_worker_step False False 5 (LSMTree_put libstdcxx [] nearly_full_engine ''k'' ''v'')
     = Some (nearly_full_engine\<lparr>memTables := [], activeMemTable := MemTable_new\<rparr>)
   \<and> LSMTree_get (nearly_full_engine\<lparr>memTables := [], activeMemTable := MemTable_new\<rparr>) ''k''
     = Some (False, [])"
proof -
  have f: "files nearly_full_engine = []" and t: "sstables nearly_full_engine = []"
    by (simp_all add: nearly_full_engine_def fresh_def LSMTree_put_def Let_def rotate_memtable_def)
  have "flush_worker_step False False 5 (LSMTree_put libstdcxx [] nearly_full_engine ''k'' ''v'')
     = Some (nearly_full_engine\<lparr>memTables := [], activeMemTable := MemTable_new\<rparr>)"
    by (simp add: nearly_full_put_rotates flush_worker_step_def flush_memtable_def
        createFromMemTable_def f)
  moreover have "LSMTree_get (nearly_full_engine\<lparr>memTables := [], activeMemTable := MemTable_new\<rparr>) ''k''
     = Some (False, [])"
    using TOMBSTONE_nonempty by (auto simp add: LSMTree_get_def MemTable_get_new t)
  ultimately show ?thesis by simp
qed

section \<open>Remove and put of the tombstone (C10)\<close>

lemma get_rotated:
  assumes "k \<noteq> []"
  shows "LSMTree_get (rotate_memtable s) k = LSMTree_get s k"
  using assms TOMBSTONE_nonempty
  by (auto simp add: LSMTree_get_def rotate_memtable_def MemTable_get_new Let_def)

text \<open>
  C10 as stated fails by design of \<^verbatim>\<open>LSMTree::remove\<close>: it puts the tombstone and
  returns, while \<^verbatim>\<open>LSMTree::put\<close> goes on to compare the size of the memtable with
  \<^const>\<open>MAX_MEMTABLE_SIZE\<close> and rotates. On the engine whose active memtable counts
  33554431 bytes, the entry \<open>(b, tombstone)\<close> counts 94 more: after \<open>remove(b)\<close> the
  queue of sealed memtables is empty, after \<open>put(b, tombstone)\<close> it holds the memtable.
\<close>

theorem C10_put_of_tombstone_rotates_remove_does_not:
  "memTables (LSMTree_remove libstdcxx [] nearly_full_engine ''b'') = []
   \<and> memTables (LSMTree_put libstdcxx [] nearly_full_engine ''b'' TOMBSTONE)
       = [MemTable_put libstdcxx [] (activeMemTable nearly_full_engine) ''b'' TOMBSTONE]
   \<and> LSMTree_remove libstdcxx [] nearly_full_engine ''b''
       \<noteq> LSMTree_put libstdcxx [] nearly_full_engine ''b'' TOMBSTONE"
proof -
  have r: "memTables (LSMTree_remove libstdcxx [] nearly_full_engine ''b'') = []"
    by (simp add: LSMTree_remove_def nearly_full_memTables)
  have p: "memTables (LSMTree_put libstdcxx [] nearly_full_engine ''b'' TOMBSTONE)
       = [MemTable_put libstdcxx [] (activeMemTable nearly_full_engine) ''b'' TOMBSTONE]"
    by (simp add: LSMTree_put_def Let_def nearly_full_size_after MAX_MEMTABLE_SIZE_def
        rotate_memtable_def nearly_full_memTables)
  from r p have "LSMTree_remove libstdcxx [] nearly_full_engine ''b''
       \<noteq> LSMTree_put libstdcxx [] nearly_full_engine ''b'' TOMBSTONE"
    by (metis list.distinct(1))
  with r p show ?thesis by blast
qed

text \<open>
  C10, amended. \<open>put(k, tombstone)\<close> is \<open>remove(k)\<close> followed by the rotation test of
  \<^verbatim>\<open>put\<close>; the two states answer every get of a non-empty key alike; and in every
  state the engine reaches, a get of a non-empty \<open>k\<close> after either of them reports
  \<open>(false, tombstone)\<close>, never found.
\<close>

theorem C10_remove_is_put_of_tombstone_without_rotation:
  "LSMTree_put P coins s k TOMBSTONE =
     (let s1 = LSMTree_remove P coins s k
      in if MemTable_getSize (activeMemTable s1) \<ge> MAX_MEMTABLE_SIZE then rotate_memtable s1 else s1)
   \<and> (\<forall>k'. k' \<noteq> [] \<longrightarrow>
         LSMTree_get (LSMTree_put P coins s k TOMBSTONE) k' = LSMTree_get (LSMTree_remove P coins s k) k')
   \<and> (LSMTree_new d = Some s0 \<and> run P s0 ops = Some s \<and> k \<noteq> [] \<longrightarrow>
         LSMTree_get (LSMTree_put P coins s k TOMBSTONE) k = Some (False, TOMBSTONE)
         \<and> LSMTree_get (LSMTree_remove P coins s k) k = Some (False, TOMBSTONE))"
proof (intro conjI allI impI)
  show eq: "LSMTree_put P coins s k TOMBSTONE =
     (let s1 = LSMTree_remove P coins s k
      in if MemTable_getSize (activeMemTable s1) \<ge> MAX_MEMTABLE_SIZE then rotate_memtable s1 else s1)"
    by (simp add: LSMTree_put_def LSMTree_remove_def Let_def)
  fix k' :: string
  assume "k' \<noteq> []"
  then show "LSMTree_get (LSMTree_put P coins s k TOMBSTONE) k' = LSMTree_get (LSMTree_remove P coins s k) k'"
    by (simp add: eq Let_def get_rotated)
next
  assume a: "LSMTree_new d = Some s0 \<and> run P s0 ops = Some s \<and> k \<noteq> []"
  then have inv: "active_inv s" using active_inv_run active_inv_new by blast
  show "LSMTree_get (LSMTree_put P coins s k TOMBSTONE) k = Some (False, TOMBSTONE)"
    using get_after_put [OF inv, of k P coins TOMBSTONE] a by simp
  show "LSMTree_get (LSMTree_remove P coins s k) k = Some (False, TOMBSTONE)"
    using get_after_remove [OF inv, of k P coins] a by simp
qed

theorem C10_remove_is_put_of_tombstone_without_rotation_witness:
  "LSMTree_new [] = Some fresh \<and> run libstdcxx fresh [] = Some fresh \<and> ''k'' \<noteq> []
   \<and> LSMTree_get (LSMTree_put libstdcxx [] fresh ''k'' TOMBSTONE) ''k'' = Some (False, TOMBSTONE)
   \<and> LSMTree_get (LSMTree_remove libstdcxx [] fresh ''k'') ''k'' = Some (False, TOMBSTONE)
   \<and> LSMTree_get (LSMTree_put libstdcxx [] fresh ''k'' TOMBSTONE) ''j''
       = LSMTree_get (LSMTree_remove libstdcxx [] fresh ''k'') ''j''"
proof -
  have 1: "LSMTree_new [] = Some fresh \<and> run libstdcxx fresh [] = Some fresh \<and> ''k'' \<noteq> []"
    by (simp add: LSMTree_new_empty)
  have 2: "''j'' \<noteq> []" by simp
  show ?thesis
    using 1 2 C10_remove_is_put_of_tombstone_without_rotation [of libstdcxx "[]" fresh "''k''" "[]" fresh "[]"]
    by blast
qed

section \<open>SSTables: the bytes written and read\<close>

lemma length_le_bytes [simp]: "length (le_bytes n x) = n"
  by (induction n arbitrary: x) simp_all

lemma le_nat_le_bytes: "le_nat (le_bytes n x) = x mod 256 ^ n"
proof (induction n arbitrary: x)
  case 0
  then show ?case by simp
next
  case (Suc n)
  have "x mod (256 * 256 ^ n) = 256 * (x div 256 mod 256 ^ n) + x mod 256"
    by (rule mod_mult2_eq)
  then show ?case using Suc by simp
qed

lemma length_u32 [simp]: "length (u32_bytes x) = 4"
  by (simp add: u32_bytes_def)

lemma length_u64 [simp]: "length (u64_bytes x) = 8"
  by (simp add: u64_bytes_def)

lemma le_nat_u32: "x < 2 ^ 32 \<Longrightarrow> le_nat (u32_bytes x) = x"
  by (simp add: u32_bytes_def le_nat_le_bytes)

lemma le_nat_u64: "x < 2 ^ 64 \<Longrightarrow> le_nat (u64_bytes x) = x"
  by (simp add: u64_bytes_def le_nat_le_bytes)

lemma length_record_bytes: "length (record_bytes kv) = 4 + length (fst kv) + 4 + length (snd kv)"
  by (simp add: record_bytes_def)

lemma data_bytes_Nil [simp]: "data_bytes [] = []"
  by (simp add: data_bytes_def)

lemma data_bytes_Cons [simp]: "data_bytes (kv # rs) = record_bytes kv @ data_bytes rs"
  by (simp add: data_bytes_def)

lemma data_bytes_append: "data_bytes (xs @ ys) = data_bytes xs @ data_bytes ys"
  by (simp add: data_bytes_def)

lemma fits32_Cons [simp]:
  "fits32 (kv # rs) \<longleftrightarrow> length (fst kv) < 2 ^ 32 \<and> length (snd kv) < 2 ^ 32 \<and> fits32 rs"
  by (simp add: fits32_def)

lemma fits32_Nil [simp]: "fits32 []"
  by (simp add: fits32_def)

lemma length_data_bytes_ge: "8 * length rs \<le> length (data_bytes rs)"
  by (induction rs) (simp_all add: length_record_bytes)

lemma upt_filter_Cons:
  "filter (\<lambda>j. (i + j) mod 10 = 0) [0..<Suc n] =
     (if i mod 10 = 0 then [0] else []) @ map Suc (filter (\<lambda>j. (Suc i + j) mod 10 = 0) [0..<n])"
proof -
  have "[0..<Suc n] = 0 # map Suc [0..<n]" by (simp add: upt_conv_Cons map_Suc_upt del: upt_Suc)
  then show ?thesis by (simp add: filter_map comp_def del: upt_Suc)
qed

lemma write_entries_general:
  assumes "rs = map (\<lambda>e. (getKey e, getValue e)) es"
  shows "fits32 rs \<Longrightarrow> off + length (data_bytes rs) < 2 ^ 64 \<Longrightarrow>
    write_entries i off es =
      (concat (map index_entry_bytes
         (map (\<lambda>j. (fst (rs ! j), off + length (data_bytes (take j rs))))
            (filter (\<lambda>j. (i + j) mod 10 = 0) [0..<length rs]))),
       data_bytes rs)"
  using assms
proof (induction es arbitrary: rs i off)
  case Nil
  then show ?case by simp
next
  case (Cons e es)
  let ?kv = "(getKey e, getValue e)"
  let ?rs = "map (\<lambda>e. (getKey e, getValue e)) es"
  have rs: "rs = ?kv # ?rs" using Cons.prems(3) by simp
  have f: "fits32 ?rs" and lk: "length (getKey e) < 2 ^ 32" and lv: "length (getValue e) < 2 ^ 32"
    using Cons.prems(1) rs by simp_all
  let ?off = "off + (4 + length (getKey e) + 4 + length (getValue e))"
  have bound: "?off + length (data_bytes ?rs) < 2 ^ 64"
    using Cons.prems(2) rs by (simp add: length_record_bytes)
  then have small: "?off < 2 ^ 64" by simp
  note IH = Cons.IH [OF f bound refl, of "Suc i"]
  have ix: "map (\<lambda>j. (fst (rs ! j), off + length (data_bytes (take j rs))))
            (filter (\<lambda>j. (i + j) mod 10 = 0) [0..<length rs])
     = (if i mod 10 = 0 then [(getKey e, off)] else [])
       @ map (\<lambda>j. (fst (?rs ! j), ?off + length (data_bytes (take j ?rs))))
            (filter (\<lambda>j. (Suc i + j) mod 10 = 0) [0..<length ?rs])"
    unfolding rs length_Cons upt_filter_Cons
    by (simp add: comp_def length_record_bytes add.assoc del: upt_Suc)
  have step: "write_entries i off (e # es) =
      (case write_entries (Suc i) ?off es of
         (index_rest, data_rest) \<Rightarrow>
           ((if i mod 10 = 0 then index_entry_bytes (getKey e, off) else []) @ index_rest,
            record_bytes ?kv @ data_rest))"
    using lk lv small
    by (simp add: Let_def KEYS_PER_INDEX_ENTRY_def record_bytes_def index_entry_bytes_def)
  show ?case
    unfolding step IH ix by (simp add: rs)
qed

lemma filter_mod10_upt:
  "filter (\<lambda>j. j mod 10 = 0) [0..<n] = map ((*) 10) [0..<(n + 9) div 10]"
proof (induction n)
  case 0
  then show ?case by simp
next
  case (Suc n)
  show ?case
  proof (cases "n mod 10 = 0")
    case True
    then obtain q where q: "n = 10 * q" by (auto simp: mod_eq_0_iff_dvd)
    have "(Suc n + 9) div 10 = Suc q" "(n + 9) div 10 = q" unfolding q by simp_all
    then show ?thesis using Suc True q by simp
  next
    case False
    have "(Suc n + 9) div 10 = (n + 9) div 10"
    proof -
      define q r where "q = n div 10" and "r = n mod 10"
      have n: "n = 10 * q + r" and r: "0 < r" "r < 10" using False by (simp_all add: q_def r_def)
      have "(Suc n + 9) div 10 = Suc q"
        by (rule div_nat_eqI) (use n r in simp_all)
      moreover have "(n + 9) div 10 = Suc q"
        by (rule div_nat_eqI) (use n r in simp_all)
      ultimately show ?thesis by simp
    qed
    then show ?thesis using Suc False by simp
  qed
qed

lemma write_entries_records:
  assumes "fits32 (MemTable_records m)" and "length (data_bytes (MemTable_records m)) < 2 ^ 64"
  shows "write_entries 0 0 (MemTable_entries m) =
     (concat (map index_entry_bytes (index_of_records (MemTable_records m))),
      data_bytes (MemTable_records m))"
  using write_entries_general [OF MemTable_records_def [of m], of 0 0] assms
  by (simp add: index_of_records_def filter_mod10_upt comp_def)

lemma read_index_entries_roundtrip:
  assumes "\<forall>e\<in>set ies. length (fst e) < 2 ^ 32 \<and> snd e < 2 ^ 64"
  shows "read_index_entries (length ies) (concat (map index_entry_bytes ies) @ rest) = Some ies"
  using assms
proof (induction ies)
  case Nil
  then show ?case by simp
next
  case (Cons e ies)
  then have k: "length (fst e) < 2 ^ 32" and o: "snd e < 2 ^ 64" by simp_all
  have "read_index_entries (length ies) (concat (map index_entry_bytes ies) @ rest) = Some ies"
    using Cons by simp
  moreover have "index_entry_bytes e = u32_bytes (length (fst e)) @ fst e @ u64_bytes (snd e)"
    by (simp add: index_entry_bytes_def)
  ultimately show ?case
    using k o by (simp add: le_nat_u32 le_nat_u64 Let_def)
qed

lemma scan_Nil: "scan k [] = Some (False, [])"
  by (simp add: scan.simps)

lemma scan_record:
  assumes "length k0 < 2 ^ 32" and "length v0 < 2 ^ 32"
  shows "scan k (record_bytes (k0, v0) @ rest) =
    (if k0 > k then Some (False, [])
     else if k0 = k then (if v0 = TOMBSTONE then Some (False, v0) else Some (True, v0))
     else scan k rest)"
  using assms
  by (subst scan.simps) (simp add: record_bytes_def le_nat_u32 Let_def)

lemma scan_data_bytes:
  assumes "sorted_wrt (<) (map fst rs)" and "fits32 rs"
  shows "scan k (data_bytes rs) = Some (lookup_result (map_of rs k))"
  using assms
proof (induction rs)
  case Nil
  then show ?case by (simp add: scan_Nil lookup_result_def)
next
  case (Cons kv rs)
  obtain k0 v0 where kv: "kv = (k0, v0)" by (cases kv)
  have lens: "length k0 < 2 ^ 32" "length v0 < 2 ^ 32" and f: "fits32 rs"
    using Cons.prems(2) kv by simp_all
  have s: "sorted_wrt (<) (map fst rs)" and gt: "\<forall>x\<in>set rs. k0 < fst x"
    using Cons.prems(1) kv by simp_all
  show ?case
  proof (cases "k < k0")
    case True
    then have "k \<notin> fst ` set rs" using gt by (metis imageE less_asym)
    then have "map_of rs k = None" by (simp add: map_of_eq_None_iff)
    then show ?thesis using True by (auto simp add: kv scan_record [OF lens] lookup_result_def)
  next
    case False
    then show ?thesis
      using Cons.IH [OF s f] by (auto simp: kv scan_record [OF lens] lookup_result_def)
  qed
qed

lemma drop_data_bytes:
  "drop (length (data_bytes (take n rs))) (data_bytes rs) = data_bytes (drop n rs)"
proof -
  have "data_bytes rs = data_bytes (take n rs) @ data_bytes (drop n rs)"
    by (simp add: data_bytes_append [symmetric])
  then show ?thesis by (metis append_eq_conv_conj)
qed

lemma length_data_bytes_take: "length (data_bytes (take n rs)) \<le> length (data_bytes rs)"
proof -
  have "data_bytes rs = data_bytes (take n rs) @ data_bytes (drop n rs)"
    by (simp add: data_bytes_append [symmetric])
  then show ?thesis by (metis le_add1 length_append)
qed

lemma bsearch_largest:
  "sorted (map fst idx) \<Longrightarrow> left \<le> right \<Longrightarrow> right < length idx \<Longrightarrow> fst (idx ! left) \<le> k \<Longrightarrow>
     (\<forall>q. right < q \<and> q < length idx \<longrightarrow> k < fst (idx ! q)) \<Longrightarrow>
     left \<le> bsearch idx k left right \<and> bsearch idx k left right \<le> right
     \<and> fst (idx ! bsearch idx k left right) \<le> k
     \<and> (\<forall>q. bsearch idx k left right < q \<and> q < length idx \<longrightarrow> k < fst (idx ! q))"
proof (induction idx k left right rule: bsearch.induct)
  case (1 idx k left right)
  show ?case
  proof (cases "left < right")
    case False
    then have "bsearch idx k left right = left" by (simp add: bsearch.simps)
    then show ?thesis using "1.prems" False by simp
  next
    case True
    note srt = "1.prems"(1)
    define mid where "mid = left + (right - left + 1) div 2"
    have mid: "left < mid" "mid \<le> right" using True by (simp_all add: mid_def)
    show ?thesis
    proof (cases "fst (idx ! mid) \<le> k")
      case le: True
      have b: "bsearch idx k left right = bsearch idx k mid right"
        using True le by (subst bsearch.simps) (simp add: mid_def Let_def)
      have "mid \<le> bsearch idx k mid right \<and> bsearch idx k mid right \<le> right
         \<and> fst (idx ! bsearch idx k mid right) \<le> k
         \<and> (\<forall>q. bsearch idx k mid right < q \<and> q < length idx \<longrightarrow> k < fst (idx ! q))"
        using "1.IH"(1) [OF True mid_def le] mid "1.prems" le by simp
      then show ?thesis using b mid by simp
    next
      case gt: False
      have b: "bsearch idx k left right = bsearch idx k left (mid - 1)"
        using True gt by (subst bsearch.simps) (simp add: mid_def Let_def)
      have above: "\<forall>q. mid - 1 < q \<and> q < length idx \<longrightarrow> k < fst (idx ! q)"
      proof (intro allI impI)
        fix q assume q: "mid - 1 < q \<and> q < length idx"
        then have mq: "mid \<le> q" using mid by linarith
        have ql: "q < length idx" using q by simp
        have "map fst idx ! mid \<le> map fst idx ! q"
          by (rule sorted_nth_mono [OF srt mq]) (simp add: ql)
        then have "fst (idx ! mid) \<le> fst (idx ! q)" using ql mid "1.prems"(3) by simp
        then show "k < fst (idx ! q)" using gt by simp
      qed
      have "left \<le> bsearch idx k left (mid - 1) \<and> bsearch idx k left (mid - 1) \<le> mid - 1
         \<and> fst (idx ! bsearch idx k left (mid - 1)) \<le> k
         \<and> (\<forall>q. bsearch idx k left (mid - 1) < q \<and> q < length idx \<longrightarrow> k < fst (idx ! q))"
        using "1.IH"(2) [OF True mid_def gt] mid "1.prems" above by simp
      then show ?thesis using b mid by auto
    qed
  qed
qed

section \<open>SSTables: creation from a memtable\<close>

lemma SkipList_run_inv: "SkipList_inv (SkipList_run P puts)"
proof -
  have "SkipList_inv sl \<Longrightarrow> SkipList_inv (foldl (\<lambda>sl (coins, k, v). SkipList_put P coins sl k v) sl puts)" for sl
    by (induction puts arbitrary: sl) (auto simp: SkipList_put_inv)
  then show ?thesis by (simp add: SkipList_run_def SkipList_new_inv)
qed

lemma MemTable_records_kvs: "MemTable_records m = kvs (nodes (skiplist m))"
  by (simp add: MemTable_records_def MemTable_entries_def SkipList_entries_def kvs_def nkey_def
      nval_def comp_def)

lemma records_sorted:
  "SkipList_inv (skiplist m) \<Longrightarrow> sorted_wrt (<) (map fst (MemTable_records m))"
  by (simp add: MemTable_records_kvs map_fst_kvs SkipList_inv_def)

lemma extension_neq: "f @ INDEX_EXTENSION \<noteq> f @ DATA_EXTENSION"
  by (simp add: INDEX_EXTENSION_def DATA_EXTENSION_def)

lemma write_entries_data:
  assumes "rs = map (\<lambda>e. (getKey e, getValue e)) es"
  shows "fits32 rs \<Longrightarrow> snd (write_entries i off es) = data_bytes rs"
  using assms
proof (induction es arbitrary: rs i off)
  case Nil
  then show ?case by simp
next
  case (Cons e es)
  let ?rs = "map (\<lambda>e. (getKey e, getValue e)) es"
  have rs: "rs = (getKey e, getValue e) # ?rs" using Cons.prems(2) by simp
  have f: "fits32 ?rs" and lk: "length (getKey e) < 2 ^ 32" and lv: "length (getValue e) < 2 ^ 32"
    using Cons.prems(1) rs by simp_all
  show ?case
    using lk lv Cons.IH [OF f refl]
    by (simp add: rs Let_def record_bytes_def case_prod_unfold)
qed

lemma createFromMemTable_data:
  assumes "fits32 (MemTable_records m)"
  shows "fst (createFromMemTable True True d f m)"
    and "map_of (snd (createFromMemTable True True d f m)) (f @ DATA_EXTENSION)
          = Some (data_bytes (MemTable_records m))"
  using write_entries_data [OF MemTable_records_def [of m] assms, of 0 0]
  by (simp_all add: createFromMemTable_def Let_def case_prod_unfold update_conv')

lemma createFromMemTable_files:
  assumes "fits32 (MemTable_records m)" and "length (data_bytes (MemTable_records m)) < 2 ^ 64"
  shows "createFromMemTable True True d f m =
     (True, AList.update (f @ DATA_EXTENSION) (data_bytes (MemTable_records m))
        (AList.update (f @ INDEX_EXTENSION)
           (u64_bytes ((length (MemTable_records m) + 9) div 10)
            @ concat (map index_entry_bytes (index_of_records (MemTable_records m)))) d))"
  using write_entries_records [OF assms]
  by (simp add: createFromMemTable_def Let_def KEYS_PER_INDEX_ENTRY_def MemTable_records_def
      add.commute)

lemma length_index_of_records [simp]: "length (index_of_records rs) = (length rs + 9) div 10"
  by (simp add: index_of_records_def)

lemma nth_index_of_records:
  "q < (length rs + 9) div 10 \<Longrightarrow>
     index_of_records rs ! q = (fst (rs ! (10 * q)), length (data_bytes (take (10 * q) rs)))"
  by (simp add: index_of_records_def)

lemma index_position:
  assumes "q < (length rs + 9) div 10"
  shows "10 * q < length rs"
proof -
  have "Suc q * 10 \<le> (length rs + 9) div 10 * 10" using assms by simp
  also have "\<dots> \<le> length rs + 9" by (rule div_times_less_eq_dividend)
  finally show ?thesis by simp
qed

section \<open>SSTables: lookups in a created table\<close>

lemma extensions_differ: "INDEX_EXTENSION \<noteq> DATA_EXTENSION"
  by (simp add: INDEX_EXTENSION_def DATA_EXTENSION_def)

lemma created_table_simps [simp]:
  "index_filename (created_table f rs) = f @ INDEX_EXTENSION"
  "data_filename (created_table f rs) = f @ DATA_EXTENSION"
  "index (created_table f rs) = index_of_records rs"
  "indexLoaded (created_table f rs)"
  by (simp_all add: created_table_def)

lemma index_of_records_fits:
  assumes "fits32 rs" and "length (data_bytes rs) < 2 ^ 64"
  shows "\<forall>e\<in>set (index_of_records rs). length (fst e) < 2 ^ 32 \<and> snd e < 2 ^ 64"
proof
  fix e assume "e \<in> set (index_of_records rs)"
  then obtain q where q: "q < (length rs + 9) div 10"
    and e: "e = (fst (rs ! (10 * q)), length (data_bytes (take (10 * q) rs)))"
    by (auto simp: index_of_records_def)
  have "rs ! (10 * q) \<in> set rs" using index_position [OF q] by simp
  then have "length (fst (rs ! (10 * q))) < 2 ^ 32" using assms(1) by (simp add: fits32_def)
  moreover have "length (data_bytes (take (10 * q) rs)) < 2 ^ 64"
    using length_data_bytes_take [of "10 * q" rs] assms(2) by simp
  ultimately show "length (fst e) < 2 ^ 32 \<and> snd e < 2 ^ 64" using e by simp
qed

lemma index_count_small:
  assumes "length (data_bytes rs) < 2 ^ 64"
  shows "(length rs + 9) div 10 < (2 :: nat) ^ 64"
proof -
  have "(length rs + 9) div 10 \<le> 8 * length rs"
    by (cases "length rs = 0") simp_all
  also have "\<dots> \<le> length (data_bytes rs)" by (rule length_data_bytes_ge)
  finally show ?thesis using assms by simp
qed

lemma SS_Table_new_created:
  assumes "fits32 (MemTable_records m)" and "length (data_bytes (MemTable_records m)) < 2 ^ 64"
  shows "SS_Table_new (snd (createFromMemTable True True d f m)) f
          = Some (created_table f (MemTable_records m))"
proof -
  let ?rs = "MemTable_records m"
  let ?c = "(length ?rs + 9) div 10"
  let ?ib = "u64_bytes ?c @ concat (map index_entry_bytes (index_of_records ?rs))"
  let ?d = "snd (createFromMemTable True True d f m)"
  have ix: "map_of ?d (f @ INDEX_EXTENSION) = Some ?ib"
    by (simp add: createFromMemTable_files [OF assms] update_conv' extensions_differ)
  have c: "le_nat (take 8 ?ib) = ?c"
    using index_count_small [OF assms(2)] by (simp add: le_nat_u64)
  have r: "read_index_entries ?c (drop 8 ?ib) = Some (index_of_records ?rs)"
    using read_index_entries_roundtrip [OF index_of_records_fits [OF assms], of "[]"] by simp
  have "loadIndex ?d \<lparr>index_filename = f @ INDEX_EXTENSION, data_filename = f @ DATA_EXTENSION,
          index = [], indexLoaded = False\<rparr>
      = Some (True, \<lparr>index_filename = f @ INDEX_EXTENSION, data_filename = f @ DATA_EXTENSION,
          index = index_of_records ?rs, indexLoaded = False\<rparr>)"
    unfolding loadIndex_def by (simp only: SS_Table.simps ix option.case c r) simp
  then show ?thesis
    by (simp add: SS_Table_new_def SS_Table_new2_def created_table_def)
qed

lemma sorted_records_nth_less:
  fixes rs :: "(string \<times> string) list"
  assumes "sorted_wrt (<) (map fst rs)" and "i < j" and "j < length rs"
  shows "fst (rs ! i) < fst (rs ! j)"
  using sorted_wrt_nth_less [OF assms(1), of i j] assms(2,3) by simp

lemma sorted_records_nth_le:
  fixes rs :: "(string \<times> string) list"
  assumes "sorted_wrt (<) (map fst rs)" and "i \<le> j" and "j < length rs"
  shows "fst (rs ! i) \<le> fst (rs ! j)"
  using sorted_records_nth_less [OF assms(1), of i j] assms(2,3)
  by (cases "i = j") (simp_all add: less_imp_le)

lemma index_sorted:
  assumes "sorted_wrt (<) (map fst rs)"
  shows "sorted (map fst (index_of_records rs))"
proof (subst sorted_iff_nth_mono, intro allI impI)
  fix i j assume ij: "i \<le> j" and j: "j < length (map fst (index_of_records rs))"
  then have jq: "j < (length rs + 9) div 10" and iq: "i < (length rs + 9) div 10" by simp_all
  have "fst (rs ! (10 * i)) \<le> fst (rs ! (10 * j))"
    using sorted_records_nth_le [OF assms, of "10 * i" "10 * j"] ij index_position [OF jq] by simp
  then show "map fst (index_of_records rs) ! i \<le> map fst (index_of_records rs) ! j"
    using iq jq by (simp add: nth_index_of_records)
qed

lemma map_of_drop_sorted:
  fixes rs :: "(string \<times> string) list"
  assumes "sorted_wrt (<) (map fst rs)" and "n < length rs" and "fst (rs ! n) \<le> k"
  shows "map_of (drop n rs) k = map_of rs k"
proof -
  have "k \<notin> fst ` set (take n rs)"
  proof
    assume "k \<in> fst ` set (take n rs)"
    then obtain i where i: "i < n" and ki: "k = fst (rs ! i)"
      using assms(2) by (auto simp: in_set_conv_nth)
    have "fst (rs ! i) < fst (rs ! n)" using sorted_records_nth_less [OF assms(1) i assms(2)] .
    then show False using ki assms(3) by simp
  qed
  then have none: "map_of (take n rs) k = None" by (simp add: map_of_eq_None_iff)
  have "map_of rs k = map_of (take n rs @ drop n rs) k" by simp
  also have "\<dots> = (map_of (drop n rs) ++ map_of (take n rs)) k" by (simp only: map_of_append)
  also have "\<dots> = map_of (drop n rs) k" using none by (simp add: map_add_def)
  finally show ?thesis by simp
qed

lemma findStartOffset_created:
  assumes "sorted_wrt (<) (map fst rs)" and "rs \<noteq> []"
  shows "\<exists>p. p < (length rs + 9) div 10
     \<and> findStartOffset (created_table f rs) k = Some (length (data_bytes (take (10 * p) rs)))
     \<and> (k < fst (rs ! 0) \<and> p = 0
        \<or> fst (rs ! (10 * p)) \<le> k
          \<and> (\<forall>q. p < q \<and> q < (length rs + 9) div 10 \<longrightarrow> k < fst (rs ! (10 * q))))"
proof -
  let ?idx = "index_of_records rs"
  let ?n = "(length rs + 9) div 10"
  have n: "0 < ?n" using assms(2) by (cases rs) simp_all
  then have ne: "?idx \<noteq> []" by (metis length_index_of_records length_greater_0_conv)
  have i0: "?idx ! 0 = (fst (rs ! 0), 0)" using n by (simp add: nth_index_of_records)
  show ?thesis
  proof (cases "k < fst (rs ! 0)")
    case True
    then have "findStartOffset (created_table f rs) k = Some (length (data_bytes (take (10 * 0) rs)))"
      using ne i0 by (simp add: findStartOffset_def)
    then show ?thesis using True n by blast
  next
    case False
    define p where "p = bsearch ?idx k 0 (length ?idx - 1)"
    have b: "0 \<le> p \<and> p \<le> length ?idx - 1 \<and> fst (?idx ! p) \<le> k
       \<and> (\<forall>q. p < q \<and> q < length ?idx \<longrightarrow> k < fst (?idx ! q))"
      unfolding p_def
    proof (rule bsearch_largest [OF index_sorted [OF assms(1)]])
      show "0 \<le> length ?idx - 1" by simp
      show "length ?idx - 1 < length ?idx" using n by simp
      show "fst (?idx ! 0) \<le> k" using False i0 by simp
      show "\<forall>q. length ?idx - 1 < q \<and> q < length ?idx \<longrightarrow> k < fst (?idx ! q)" by auto
    qed
    then have pn: "p < ?n" using n by auto
    have "findStartOffset (created_table f rs) k = Some (snd (?idx ! p))"
      using ne i0 False by (simp add: findStartOffset_def p_def)
    then have f: "findStartOffset (created_table f rs) k = Some (length (data_bytes (take (10 * p) rs)))"
      using pn by (simp add: nth_index_of_records)
    have le: "fst (rs ! (10 * p)) \<le> k" using b pn by (simp add: nth_index_of_records)
    have gt: "\<forall>q. p < q \<and> q < ?n \<longrightarrow> k < fst (rs ! (10 * q))"
    proof (intro allI impI)
      fix q assume q: "p < q \<and> q < ?n"
      then have "k < fst (?idx ! q)" using b by simp
      then show "k < fst (rs ! (10 * q))" using q by (simp add: nth_index_of_records)
    qed
    show ?thesis using pn f le gt by blast
  qed
qed

lemma getValue_created:
  assumes s: "sorted_wrt (<) (map fst rs)" and f32: "fits32 rs"
    and small: "length (data_bytes rs) < 2 ^ 63"
    and dfile: "map_of d (f @ DATA_EXTENSION) = Some (data_bytes rs)"
  shows "SS_Table_getValue d (created_table f rs) k = Some (lookup_result (map_of rs k))"
proof (cases "rs = []")
  case True
  then show ?thesis
    by (simp add: SS_Table_getValue_def findStartOffset_def index_of_records_def
        lookup_result_def)
next
  case False
  obtain p where p: "p < (length rs + 9) div 10"
    and off: "findStartOffset (created_table f rs) k = Some (length (data_bytes (take (10 * p) rs)))"
    and c: "k < fst (rs ! 0) \<and> p = 0 \<or> fst (rs ! (10 * p)) \<le> k"
    using findStartOffset_created [OF s False, of f k] by blast
  have lt: "length (data_bytes (take (10 * p) rs)) < 2 ^ 63"
    using length_data_bytes_take [of "10 * p" rs] small by simp
  have sd: "sorted_wrt (<) (map fst (drop (10 * p) rs))"
    using s by (simp add: drop_map [symmetric] sorted_wrt_drop)
  have fd: "fits32 (drop (10 * p) rs)"
    using f32 by (auto simp: fits32_def dest: in_set_dropD)
  have m: "map_of (drop (10 * p) rs) k = map_of rs k"
    using c
  proof
    assume "k < fst (rs ! 0) \<and> p = 0"
    then show ?thesis by simp
  next
    assume "fst (rs ! (10 * p)) \<le> k"
    then show ?thesis using map_of_drop_sorted [OF s index_position [OF p]] by simp
  qed
  have "SS_Table_getValue d (created_table f rs) k = scan k (data_bytes (drop (10 * p) rs))"
    using off dfile lt
    by (simp add: SS_Table_getValue_def drop_data_bytes)
  then show ?thesis using scan_data_bytes [OF sd fd, of k] m by simp
qed

lemma stored_key_block:
  assumes s: "sorted_wrt (<) (map fst rs)" and j: "j < length rs"
  shows "findStartOffset (created_table f rs) (fst (rs ! j))
           = Some (length (data_bytes (take (10 * (j div 10)) rs)))"
    and "fst (rs ! (10 * (j div 10))) \<le> fst (rs ! j)"
    and "\<forall>q. j div 10 < q \<and> q < (length rs + 9) div 10 \<longrightarrow> fst (rs ! j) < fst (rs ! (10 * q))"
proof -
  let ?k = "fst (rs ! j)"
  have ne: "rs \<noteq> []" using j by auto
  obtain p where p: "p < (length rs + 9) div 10"
    and off: "findStartOffset (created_table f rs) ?k = Some (length (data_bytes (take (10 * p) rs)))"
    and c: "?k < fst (rs ! 0) \<and> p = 0 \<or> fst (rs ! (10 * p)) \<le> ?k
          \<and> (\<forall>q. p < q \<and> q < (length rs + 9) div 10 \<longrightarrow> ?k < fst (rs ! (10 * q)))"
    using findStartOffset_created [OF s ne, of f ?k] by blast
  have "\<not> ?k < fst (rs ! 0)"
    using sorted_records_nth_le [OF s, of 0 j] j by (simp add: not_less)
  then have le: "fst (rs ! (10 * p)) \<le> ?k"
    and gt: "\<forall>q. p < q \<and> q < (length rs + 9) div 10 \<longrightarrow> ?k < fst (rs ! (10 * q))"
    using c by auto
  have lo: "10 * p \<le> j"
  proof (rule ccontr)
    assume "\<not> 10 * p \<le> j"
    then have "j < 10 * p" by simp
    then have "?k < fst (rs ! (10 * p))"
      using sorted_records_nth_less [OF s _ index_position [OF p]] by simp
    then show False using le by simp
  qed
  have hi: "j < 10 * Suc p"
  proof (rule ccontr)
    assume n: "\<not> j < 10 * Suc p"
    then have a: "10 * Suc p \<le> j" by simp
    then have "10 * Suc p < length rs" using j by simp
    then have "Suc (Suc p) * 10 \<le> length rs + 9" by simp
    then have "Suc (Suc p) \<le> (length rs + 9) div 10"
      by (simp only: less_eq_div_iff_mult_less_eq [OF zero_less_numeral])
    then have "Suc p < (length rs + 9) div 10" by simp
    then have "?k < fst (rs ! (10 * Suc p))" using gt [rule_format, of "Suc p"] by blast
    moreover have "fst (rs ! (10 * Suc p)) \<le> ?k"
      using sorted_records_nth_le [OF s a j] .
    ultimately show False by simp
  qed
  have pj: "p = j div 10" using lo hi by (simp add: div_nat_eqI mult.commute)
  show "findStartOffset (created_table f rs) ?k = Some (length (data_bytes (take (10 * (j div 10)) rs)))"
    using off pj by simp
  show "fst (rs ! (10 * (j div 10))) \<le> ?k" using le pj by simp
  show "\<forall>q. j div 10 < q \<and> q < (length rs + 9) div 10 \<longrightarrow> ?k < fst (rs ! (10 * q))"
    using gt pj by simp
qed

section \<open>Sparse index coverage (C5) and the order of records (C7)\<close>

lemma example_run_nodes:
  "nodes (SkipList_run libstdcxx example_puts) =
     [\<lparr>data = \<lparr>getKey = ''a'', getValue = TOMBSTONE\<rparr>, height = 0\<rparr>,
      \<lparr>data = \<lparr>getKey = ''b'', getValue = ''2''\<rparr>, height = 1\<rparr>]"
  by (simp add: SkipList_run_def example_puts_def SkipList_new_def SkipList_put_def search_def
      node_data_def MAX_LEVEL_def Let_def)

lemma example_records:
  "MemTable_records \<lparr>skiplist = SkipList_run libstdcxx example_puts\<rparr> = [(''a'', TOMBSTONE), (''b'', ''2'')]"
  by (simp add: MemTable_records_kvs example_run_nodes kvs_def nkey_def nval_def)

lemma example_records_fit: "fits32 [(''a'', TOMBSTONE), (''b'', ''2'')]"
  by (simp add: TOMBSTONE_def)

lemma example_records_small: "length (data_bytes [(''a'', TOMBSTONE), (''b'', ''2'')]) < 2 ^ 63"
  by (simp add: length_record_bytes TOMBSTONE_def)

lemma stored_lookup:
  fixes rs :: "(string \<times> string) list"
  assumes "sorted_wrt (<) (map fst rs)" and "j < length rs"
  shows "map_of rs (fst (rs ! j)) = Some (snd (rs ! j))"
proof -
  have "distinct (map fst rs)" using assms(1) by (simp add: strict_sorted_iff)
  moreover have "(fst (rs ! j), snd (rs ! j)) \<in> set rs" using assms(2) by simp
  ultimately show ?thesis by (simp only: map_of_eq_Some_iff)
qed

text \<open>
  C5. Let \<open>rs\<close> be the \<open>R\<close> records of a memtable built by any sequence of puts,
  with keys and values that fit the 32-bit size fields of the file format and a data file
  below \<open>2 ^ 63\<close> bytes (the range of a stream position), and let the two files be
  written by \<^verbatim>\<open>createFromMemTable\<close> and the index be loaded by the constructor. Then
  the data file holds the records one after the other; the index has
  \<open>(R + 9) div 10\<close> entries, entry \<open>q\<close> holding the key of record \<open>10 * q\<close> and the
  offset of its first byte; and for the key of record \<open>j\<close>, entry \<open>j div 10\<close> is the
  largest entry with a key up to it, \<^verbatim>\<open>findStartOffset\<close> returns the offset of that
  entry, the bytes from there are the records from \<open>10 * (j div 10)\<close> on (so record
  \<open>j\<close> is among the first ten), and \<^verbatim>\<open>getValue\<close> returns the value as found, or the
  tombstone as not found. A key that is not stored is reported absent.
\<close>

theorem C5_sparse_index_coverage:
  assumes m: "m = \<lparr>skiplist = SkipList_run P puts\<rparr>"
    and rs: "rs = MemTable_records m"
    and f32: "fits32 rs"
    and small: "length (data_bytes rs) < 2 ^ 63"
    and cr: "createFromMemTable True True d f m = (ok, d')"
  shows "ok \<and> map_of d' (f @ DATA_EXTENSION) = Some (data_bytes rs)
    \<and> (\<exists>t. SS_Table_new d' f = Some t \<and> data_filename t = f @ DATA_EXTENSION \<and> indexLoaded t
        \<and> length (index t) = (length rs + 9) div 10
        \<and> (\<forall>q<length (index t).
              index t ! q = (fst (rs ! (10 * q)), length (data_bytes (take (10 * q) rs))))
        \<and> (\<forall>j<length rs.
              fst (index t ! (j div 10)) \<le> fst (rs ! j)
            \<and> (\<forall>q. j div 10 < q \<and> q < length (index t) \<longrightarrow> fst (rs ! j) < fst (index t ! q))
            \<and> findStartOffset t (fst (rs ! j)) = Some (snd (index t ! (j div 10)))
            \<and> drop (snd (index t ! (j div 10))) (data_bytes rs) = data_bytes (drop (10 * (j div 10)) rs)
            \<and> SS_Table_getValue d' t (fst (rs ! j)) =
                Some (if snd (rs ! j) = TOMBSTONE then (False, TOMBSTONE) else (True, snd (rs ! j))))
        \<and> (\<forall>k. k \<notin> fst ` set rs \<longrightarrow> SS_Table_getValue d' t k = Some (False, [])))"
proof -
  let ?t = "created_table f rs"
  have inv: "SkipList_inv (skiplist m)" by (simp add: m SkipList_run_inv)
  have s: "sorted_wrt (<) (map fst rs)" unfolding rs by (rule records_sorted [OF inv])
  have f32': "fits32 (MemTable_records m)" and small64: "length (data_bytes (MemTable_records m)) < 2 ^ 64"
    using f32 small by (simp_all add: rs)
  have ok: "ok" and d': "d' = snd (createFromMemTable True True d f m)"
    using cr createFromMemTable_data(1) [OF f32', where d = d and f = f] by simp_all
  have dfile: "map_of d' (f @ DATA_EXTENSION) = Some (data_bytes rs)"
    unfolding d' rs by (rule createFromMemTable_data(2) [OF f32'])
  have new: "SS_Table_new d' f = Some ?t"
    unfolding d' rs by (rule SS_Table_new_created [OF f32' small64])
  note gv = getValue_created [OF s f32 small dfile]
  have idx: "\<forall>q<length (index ?t).
      index ?t ! q = (fst (rs ! (10 * q)), length (data_bytes (take (10 * q) rs)))"
    by (simp add: nth_index_of_records)
  have stored: "\<forall>j<length rs.
        fst (index ?t ! (j div 10)) \<le> fst (rs ! j)
      \<and> (\<forall>q. j div 10 < q \<and> q < length (index ?t) \<longrightarrow> fst (rs ! j) < fst (index ?t ! q))
      \<and> findStartOffset ?t (fst (rs ! j)) = Some (snd (index ?t ! (j div 10)))
      \<and> drop (snd (index ?t ! (j div 10))) (data_bytes rs) = data_bytes (drop (10 * (j div 10)) rs)
      \<and> SS_Table_getValue d' ?t (fst (rs ! j)) =
          Some (if snd (rs ! j) = TOMBSTONE then (False, TOMBSTONE) else (True, snd (rs ! j)))"
  proof (intro allI impI)
    fix j assume j: "j < length rs"
    have "j div 10 * 10 \<le> j" by (rule div_times_less_eq_dividend)
    then have "Suc (j div 10) * 10 \<le> length rs + 9" using j by simp
    then have "Suc (j div 10) \<le> (length rs + 9) div 10"
      by (simp only: less_eq_div_iff_mult_less_eq [OF zero_less_numeral])
    then have p: "j div 10 < (length rs + 9) div 10" by simp
    note b = stored_key_block(1) [OF s j, of f] stored_key_block(2,3) [OF s j]
    have 1: "fst (index ?t ! (j div 10)) \<le> fst (rs ! j)" using b(2) p by (simp add: nth_index_of_records)
    have 2: "\<forall>q. j div 10 < q \<and> q < length (index ?t) \<longrightarrow> fst (rs ! j) < fst (index ?t ! q)"
      using b(3) by (simp add: nth_index_of_records)
    have 3: "findStartOffset ?t (fst (rs ! j)) = Some (snd (index ?t ! (j div 10)))"
      using b(1) p by (simp add: nth_index_of_records)
    have 4: "drop (snd (index ?t ! (j div 10))) (data_bytes rs) = data_bytes (drop (10 * (j div 10)) rs)"
      using p by (simp add: nth_index_of_records drop_data_bytes)
    have 5: "SS_Table_getValue d' ?t (fst (rs ! j)) =
          Some (if snd (rs ! j) = TOMBSTONE then (False, TOMBSTONE) else (True, snd (rs ! j)))"
      by (simp add: gv stored_lookup [OF s j] lookup_result_def)
    show "fst (index ?t ! (j div 10)) \<le> fst (rs ! j)
      \<and> (\<forall>q. j div 10 < q \<and> q < length (index ?t) \<longrightarrow> fst (rs ! j) < fst (index ?t ! q))
      \<and> findStartOffset ?t (fst (rs ! j)) = Some (snd (index ?t ! (j div 10)))
      \<and> drop (snd (index ?t ! (j div 10))) (data_bytes rs) = data_bytes (drop (10 * (j div 10)) rs)
      \<and> SS_Table_getValue d' ?t (fst (rs ! j)) =
          Some (if snd (rs ! j) = TOMBSTONE then (False, TOMBSTONE) else (True, snd (rs ! j)))"
      using 1 2 3 4 5 by blast
  qed
  have absent: "\<forall>k. k \<notin> fst ` set rs \<longrightarrow> SS_Table_getValue d' ?t k = Some (False, [])"
    by (simp add: gv lookup_result_def map_of_eq_None_iff [THEN iffD2])
  have "SS_Table_new d' f = Some ?t \<and> data_filename ?t = f @ DATA_EXTENSION \<and> indexLoaded ?t
        \<and> length (index ?t) = (length rs + 9) div 10"
    using new by simp
  then show ?thesis using ok dfile idx stored absent by blast
qed

theorem C5_sparse_index_coverage_witness:
  "fits32 (MemTable_records \<lparr>skiplist = SkipList_run libstdcxx example_puts\<rparr>)
   \<and> length (data_bytes (MemTable_records \<lparr>skiplist = SkipList_run libstdcxx example_puts\<rparr>)) < 2 ^ 63
   \<and> (\<exists>t. SS_Table_new (snd (createFromMemTable True True [] ''data/sstable_5''
                \<lparr>skiplist = SkipList_run libstdcxx example_puts\<rparr>)) ''data/sstable_5'' = Some t
          \<and> length (index t) = 1
          \<and> findStartOffset t ''b'' = Some 0
          \<and> SS_Table_getValue (snd (createFromMemTable True True [] ''data/sstable_5''
                \<lparr>skiplist = SkipList_run libstdcxx example_puts\<rparr>)) t ''b'' = Some (True, ''2'')
          \<and> SS_Table_getValue (snd (createFromMemTable True True [] ''data/sstable_5''
                \<lparr>skiplist = SkipList_run libstdcxx example_puts\<rparr>)) t ''a'' = Some (False, TOMBSTONE))"
proof -
  let ?m = "\<lparr>skiplist = SkipList_run libstdcxx example_puts\<rparr>"
  let ?rs = "[(''a'', TOMBSTONE), (''b'', ''2'')]"
  let ?c = "createFromMemTable True True [] ''data/sstable_5'' ?m"
  have rs: "?rs = MemTable_records ?m" by (simp add: example_records)
  have c: "?c = (fst ?c, snd ?c)" by simp
  note th = C5_sparse_index_coverage [OF refl rs example_records_fit example_records_small c]
  then obtain t where new: "SS_Table_new (snd ?c) ''data/sstable_5'' = Some t"
    and len: "length (index t) = (length ?rs + 9) div 10"
    and idx: "\<forall>q<length (index t).
              index t ! q = (fst (?rs ! (10 * q)), length (data_bytes (take (10 * q) ?rs)))"
    and st: "\<forall>j<length ?rs.
              fst (index t ! (j div 10)) \<le> fst (?rs ! j)
            \<and> (\<forall>q. j div 10 < q \<and> q < length (index t) \<longrightarrow> fst (?rs ! j) < fst (index t ! q))
            \<and> findStartOffset t (fst (?rs ! j)) = Some (snd (index t ! (j div 10)))
            \<and> drop (snd (index t ! (j div 10))) (data_bytes ?rs) = data_bytes (drop (10 * (j div 10)) ?rs)
            \<and> SS_Table_getValue (snd ?c) t (fst (?rs ! j)) =
                Some (if snd (?rs ! j) = TOMBSTONE then (False, TOMBSTONE) else (True, snd (?rs ! j)))"
    by blast
  have l1: "length (index t) = 1" using len by simp
  have i0: "index t ! 0 = (''a'', 0)" using idx l1 by simp
  have "findStartOffset t ''b'' = Some 0"
    and "SS_Table_getValue (snd ?c) t ''b'' = Some (True, ''2'')"
    using st [rule_format, of 1] i0 by (simp_all add: TOMBSTONE_def)
  moreover have "SS_Table_getValue (snd ?c) t ''a'' = Some (False, TOMBSTONE)"
    using st [rule_format, of 0] by simp
  ultimately show ?thesis
    using new l1 example_records_fit example_records_small by (simp add: example_records)
qed

text \<open>
  C7. After any sequence of puts on a new skip list the keys of the base-level nodes,
  in \<^verbatim>\<open>next\<close> order, are strictly ascending; and when keys and values fit the 32-bit
  size fields, the data file that \<^verbatim>\<open>createFromMemTable\<close> writes is the sequence of the
  records of these nodes, in strictly ascending key order, no key twice.
\<close>

theorem C7_base_keys_strictly_ascending:
  "sorted_wrt (<) (map getKey (SkipList_entries (SkipList_run P puts)))
   \<and> (fits32 (MemTable_records \<lparr>skiplist = SkipList_run P puts\<rparr>) \<longrightarrow>
        fst (createFromMemTable True True d f \<lparr>skiplist = SkipList_run P puts\<rparr>)
      \<and> map_of (snd (createFromMemTable True True d f \<lparr>skiplist = SkipList_run P puts\<rparr>))
           (f @ DATA_EXTENSION)
         = Some (data_bytes (MemTable_records \<lparr>skiplist = SkipList_run P puts\<rparr>))
      \<and> sorted_wrt (<) (map fst (MemTable_records \<lparr>skiplist = SkipList_run P puts\<rparr>))
      \<and> distinct (map fst (MemTable_records \<lparr>skiplist = SkipList_run P puts\<rparr>)))"
proof (intro conjI impI)
  let ?m = "\<lparr>skiplist = SkipList_run P puts\<rparr>"
  have inv: "SkipList_inv (skiplist ?m)" by (simp add: SkipList_run_inv)
  have "map getKey (SkipList_entries (SkipList_run P puts)) = map nkey (nodes (SkipList_run P puts))"
    by (simp add: SkipList_entries_def nkey_def comp_def)
  then show "sorted_wrt (<) (map getKey (SkipList_entries (SkipList_run P puts)))"
    using SkipList_run_inv [of P puts] by (simp add: SkipList_inv_def)
  show s: "sorted_wrt (<) (map fst (MemTable_records ?m))" by (rule records_sorted [OF inv])
  then show "distinct (map fst (MemTable_records ?m))" by (simp add: strict_sorted_iff)
  assume f32: "fits32 (MemTable_records ?m)"
  show "fst (createFromMemTable True True d f ?m)" by (rule createFromMemTable_data(1) [OF f32])
  show "map_of (snd (createFromMemTable True True d f ?m)) (f @ DATA_EXTENSION)
         = Some (data_bytes (MemTable_records ?m))"
    by (rule createFromMemTable_data(2) [OF f32])
qed

theorem C7_base_keys_strictly_ascending_witness:
  "fits32 (MemTable_records \<lparr>skiplist = SkipList_run libstdcxx example_puts\<rparr>)
   \<and> map getKey (SkipList_entries (SkipList_run libstdcxx example_puts)) = [''a'', ''b'']
   \<and> sorted_wrt (<) [''a'', ''b'']
   \<and> map_of (snd (createFromMemTable True True [] ''data/sstable_5''
                \<lparr>skiplist = SkipList_run libstdcxx example_puts\<rparr>)) ''data/sstable_5.data''
       = Some (data_bytes [(''a'', TOMBSTONE), (''b'', ''2'')])"
proof -
  have f: "fits32 (MemTable_records \<lparr>skiplist = SkipList_run libstdcxx example_puts\<rparr>)"
    by (simp add: example_records TOMBSTONE_def)
  have k: "map getKey (SkipList_entries (SkipList_run libstdcxx example_puts)) = [''a'', ''b'']"
    by (simp add: SkipList_entries_def example_run_nodes)
  show ?thesis
    using f k C7_base_keys_strictly_ascending [of libstdcxx example_puts "[]" "''data/sstable_5''"]
    by (simp add: example_records DATA_EXTENSION_def)
qed

section \<open>Loading the SSTables at startup (C8)\<close>

lemma loadIndex_result:
  assumes "loadIndex d t = Some (ok, t')"
  shows "index_filename t' = index_filename t" and "data_filename t' = data_filename t"
    and "indexLoaded t' = indexLoaded t" and "ok \<longleftrightarrow> map_of d (index_filename t) \<noteq> None"
  using assms by (auto simp: loadIndex_def split: option.splits if_splits)

lemma SS_Table_new2_result:
  assumes "SS_Table_new2 d iname dname = Some t"
  shows "index_filename t = iname" and "data_filename t = dname"
    and "indexLoaded t \<longleftrightarrow> map_of d iname \<noteq> None"
  using assms
  by (auto simp: SS_Table_new2_def split: option.splits prod.splits dest: loadIndex_result)

lemma load_files_names:
  "load_files d fs acc = Some r \<Longrightarrow> set fs \<subseteq> fst ` set d \<Longrightarrow>
     map index_filename r = map index_filename acc @ filter has_index_extension fs"
proof (induction fs arbitrary: acc)
  case Nil
  then show ?case by simp
next
  case (Cons path fs)
  have ex: "map_of d path \<noteq> None" using Cons.prems(2) by (simp add: map_of_eq_None_iff)
  show ?case
  proof (cases "string_find path INDEX_EXTENSION")
    case None
    then show ?thesis using Cons by (simp add: has_index_extension_def)
  next
    case (Some pos)
    from Cons.prems(1) Some obtain t ok t' where
      t: "SS_Table_new2 d path (take pos path @ DATA_EXTENSION) = Some t"
      and l: "loadIndex d t = Some (ok, t')"
      and r: "(if ok then load_files d fs (acc @ [t']) else load_files d fs acc) = Some r"
      by (auto simp: Let_def split: option.splits prod.splits)
    have "ok" using loadIndex_result(4) [OF l] SS_Table_new2_result(1) [OF t] ex by simp
    moreover have "index_filename t' = path"
      using loadIndex_result(1) [OF l] SS_Table_new2_result(1) [OF t] by simp
    ultimately show ?thesis
      using Cons.IH [of "acc @ [t']"] r Cons.prems(2) Some by (simp add: has_index_extension_def)
  qed
qed

lemma getValue_without_data_file:
  "map_of d (data_filename t) = None \<Longrightarrow> SS_Table_getValue d t k = Some (False, [])"
  by (simp add: SS_Table_getValue_def split: option.splits)

lemma string_find_suffix: "string_find (base @ pat) pat \<noteq> None"
proof (induction base)
  case Nil
  then show ?case by (cases pat) simp_all
next
  case (Cons c base)
  then show ?case by auto
qed

lemma load_files_data_names:
  "load_files d fs acc = Some r \<Longrightarrow>
     \<forall>t\<in>set acc. \<exists>pos. string_find (index_filename t) INDEX_EXTENSION = Some pos
        \<and> data_filename t = take pos (index_filename t) @ DATA_EXTENSION \<Longrightarrow>
     \<forall>t\<in>set r. \<exists>pos. string_find (index_filename t) INDEX_EXTENSION = Some pos
        \<and> data_filename t = take pos (index_filename t) @ DATA_EXTENSION"
proof (induction fs arbitrary: acc)
  case Nil
  then show ?case by simp
next
  case (Cons path fs)
  show ?case
  proof (cases "string_find path INDEX_EXTENSION")
    case None
    then show ?thesis using Cons by simp
  next
    case (Some pos)
    from Cons.prems(1) Some obtain t ok t' where
      t: "SS_Table_new2 d path (take pos path @ DATA_EXTENSION) = Some t"
      and l: "loadIndex d t = Some (ok, t')"
      and r: "(if ok then load_files d fs (acc @ [t']) else load_files d fs acc) = Some r"
      by (auto simp: Let_def split: option.splits prod.splits)
    have "index_filename t' = path" and "data_filename t' = take pos path @ DATA_EXTENSION"
      using loadIndex_result(1,2) [OF l] SS_Table_new2_result(1,2) [OF t] by simp_all
    then have "\<forall>t\<in>set (acc @ [t']). \<exists>pos. string_find (index_filename t) INDEX_EXTENSION = Some pos
        \<and> data_filename t = take pos (index_filename t) @ DATA_EXTENSION"
      using Cons.prems(2) Some by auto
    then show ?thesis using Cons.IH [of "acc @ [t']"] Cons.IH [of acc] Cons.prems(2) r
      by (cases ok) simp_all
  qed
qed

lemma LSMTree_new_result:
  assumes "LSMTree_new d = Some s"
  shows "files s = d"
    and "\<exists>loaded. sstables s = sort_key index_filename loaded
           \<and> map index_filename loaded = filter has_index_extension (map fst d)"
    and "\<forall>t\<in>set (sstables s). \<exists>pos. string_find (index_filename t) INDEX_EXTENSION = Some pos
        \<and> data_filename t = take pos (index_filename t) @ DATA_EXTENSION"
proof -
  from assms obtain loaded where l: "load_files d (map fst d) [] = Some loaded"
    and s: "s = \<lparr>activeMemTable = MemTable_new, memTables = [], sstables = sort_key index_filename loaded,
                 files = d\<rparr>"
    by (auto simp: LSMTree_new_def load_existing_sstables_def split: option.splits)
  show "files s = d" by (simp add: s)
  have "map index_filename loaded = filter has_index_extension (map fst d)"
    using load_files_names [OF l] by simp
  then show "\<exists>loaded. sstables s = sort_key index_filename loaded
           \<and> map index_filename loaded = filter has_index_extension (map fst d)"
    using s by auto
  show "\<forall>t\<in>set (sstables s). \<exists>pos. string_find (index_filename t) INDEX_EXTENSION = Some pos
        \<and> data_filename t = take pos (index_filename t) @ DATA_EXTENSION"
    using load_files_data_names [OF l] by (simp add: s)
qed

lemma orphan_index_loads:
  "loadIndex orphan_index_directory
     \<lparr>index_filename = ''data/sstable_1.index'', data_filename = ''data/sstable_1.data'',
      index = ix, indexLoaded = b\<rparr>
   = Some (True, \<lparr>index_filename = ''data/sstable_1.index'', data_filename = ''data/sstable_1.data'',
      index = [(''a'', 0)], indexLoaded = b\<rparr>)"
proof -
  have r: "read_index_entries (length [(''a'', 0 :: nat)]) (concat (map index_entry_bytes [(''a'', 0)]) @ [])
      = Some [(''a'', 0)]"
    by (rule read_index_entries_roundtrip) simp
  have c: "le_nat (take 8 (u64_bytes 1 @ index_entry_bytes (''a'', 0))) = 1"
    by (simp add: le_nat_u64)
  show ?thesis
    unfolding loadIndex_def orphan_index_directory_def
    using r c by simp
qed

lemma string_find_example: "string_find ''data/sstable_1.index'' INDEX_EXTENSION = Some 14"
  by (simp add: INDEX_EXTENSION_def)

lemma orphan_table_reloaded: "loadIndex orphan_index_directory orphan_index_table = Some (True, orphan_index_table)"
    unfolding orphan_index_table_def by (rule orphan_index_loads)

lemma orphan_table_constructed: "SS_Table_new2 orphan_index_directory ''data/sstable_1.index'' ''data/sstable_1.data''
      = Some orphan_index_table"
  unfolding SS_Table_new2_def orphan_index_loads orphan_index_table_def by simp

lemma orphan_data_name: "take 14 ''data/sstable_1.index'' @ DATA_EXTENSION = ''data/sstable_1.data''"
  by (simp add: DATA_EXTENSION_def)

lemma orphan_files_loaded: "load_files orphan_index_directory [''data/sstable_1.index''] [] = Some [orphan_index_table]"
  apply (subst load_files.simps)
  apply (simp only: string_find_example option.case Let_def orphan_data_name orphan_table_constructed orphan_table_reloaded prod.case if_True)
  apply (simp only: load_files.simps append_Nil)
  done

lemma orphan_directory_paths: "map fst orphan_index_directory = [''data/sstable_1.index'']"
  by (simp add: orphan_index_directory_def)

lemma orphan_index_engine:
  "LSMTree_new orphan_index_directory =
       Some \<lparr>activeMemTable = MemTable_new, memTables = [], sstables = [orphan_index_table],
             files = orphan_index_directory\<rparr>"
  unfolding LSMTree_new_def load_existing_sstables_def
  by (simp only: LSMTree.simps orphan_directory_paths orphan_files_loaded option.case sort_key_simps insort_key.simps LSMTree.update_convs)

lemma orphan_data_file_missing: "map_of orphan_index_directory ''data/sstable_1.data'' = None"
  by (simp add: orphan_index_directory_def)

text \<open>
  C8 as stated fails: \<^verbatim>\<open>load_existing_sstables\<close> builds a handle for every path that
  contains the index extension and keeps it when \<^verbatim>\<open>loadIndex\<close> succeeds, and
  \<^verbatim>\<open>loadIndex\<close> opens the index file only; nothing at startup looks for the data file.
  On a directory that holds \<open>data/sstable_1.index\<close> and no \<open>data/sstable_1.data\<close> the
  engine starts with the handle of that table in its list.
\<close>

theorem C8_index_file_without_data_file_is_loaded:
  "map_of orphan_index_directory ''data/sstable_1.data'' = None
   \<and> LSMTree_new orphan_index_directory =
       Some \<lparr>activeMemTable = MemTable_new, memTables = [], sstables = [orphan_index_table],
             files = orphan_index_directory\<rparr>"
  using orphan_data_file_missing orphan_index_engine by simp

text \<open>
  C8, amended. When the engine starts on a directory, its list holds one handle for every
  path of the directory that contains the index extension (so for every file that ends in
  it), in ascending order of the index file names, whether or not the data file exists;
  the data file of a handle is named by the path up to the first occurrence of the index
  extension, followed by the data extension; and a handle whose data file is missing
  answers every lookup with \<open>(false, "")\<close>. (The engine starts when no index file is
  truncated.)
\<close>

theorem C8_loader_does_not_look_for_the_data_file:
  assumes "LSMTree_new d = Some s"
  shows "index_filename ` set (sstables s) = {path \<in> fst ` set d. has_index_extension path}
    \<and> length (sstables s) = length (filter has_index_extension (map fst d))
    \<and> (\<forall>base. base @ INDEX_EXTENSION \<in> fst ` set d
          \<longrightarrow> (\<exists>t\<in>set (sstables s). index_filename t = base @ INDEX_EXTENSION))
    \<and> sorted (map index_filename (sstables s))
    \<and> (\<forall>t\<in>set (sstables s). \<exists>pos. string_find (index_filename t) INDEX_EXTENSION = Some pos
          \<and> data_filename t = take pos (index_filename t) @ DATA_EXTENSION)
    \<and> (\<forall>t\<in>set (sstables s). \<forall>k. map_of (files s) (data_filename t) = None
          \<longrightarrow> SS_Table_getValue (files s) t k = Some (False, []))"
proof -
  obtain loaded where l: "sstables s = sort_key index_filename loaded"
    and n: "map index_filename loaded = filter has_index_extension (map fst d)"
    using LSMTree_new_result(2) [OF assms] by blast
  have "index_filename ` set (sstables s) = set (map index_filename loaded)" by (simp add: l)
  also have "\<dots> = {path \<in> fst ` set d. has_index_extension path}" unfolding n by auto
  finally have 1: "index_filename ` set (sstables s) = {path \<in> fst ` set d. has_index_extension path}" .
  have "length (sstables s) = length (map index_filename loaded)" by (simp add: l)
  then have 2: "length (sstables s) = length (filter has_index_extension (map fst d))"
    unfolding n .
  have 3: "\<forall>base. base @ INDEX_EXTENSION \<in> fst ` set d
          \<longrightarrow> (\<exists>t\<in>set (sstables s). index_filename t = base @ INDEX_EXTENSION)"
  proof (intro allI impI)
    fix base assume "base @ INDEX_EXTENSION \<in> fst ` set d"
    moreover have "has_index_extension (base @ INDEX_EXTENSION)"
      unfolding has_index_extension_def by (rule string_find_suffix)
    ultimately have "base @ INDEX_EXTENSION \<in> {path \<in> fst ` set d. has_index_extension path}"
      by blast
    then have "base @ INDEX_EXTENSION \<in> index_filename ` set (sstables s)" by (simp only: 1)
    then show "\<exists>t\<in>set (sstables s). index_filename t = base @ INDEX_EXTENSION" by auto
  qed
  have 4: "sorted (map index_filename (sstables s))" by (simp add: l)
  note 5 = LSMTree_new_result(3) [OF assms]
  have 6: "\<forall>t\<in>set (sstables s). \<forall>k. map_of (files s) (data_filename t) = None
          \<longrightarrow> SS_Table_getValue (files s) t k = Some (False, [])"
    by (simp add: getValue_without_data_file)
  show ?thesis by (intro conjI 1 2 3 4 5 6)
qed

theorem C8_loader_does_not_look_for_the_data_file_witness:
  "LSMTree_new orphan_index_directory =
       Some \<lparr>activeMemTable = MemTable_new, memTables = [], sstables = [orphan_index_table],
             files = orphan_index_directory\<rparr>
   \<and> map_of orphan_index_directory (data_filename orphan_index_table) = None
   \<and> SS_Table_getValue orphan_index_directory orphan_index_table ''a'' = Some (False, [])"
proof -
  let ?s = "\<lparr>activeMemTable = MemTable_new, memTables = [], sstables = [orphan_index_table],
             files = orphan_index_directory\<rparr>"
  have m: "map_of orphan_index_directory (data_filename orphan_index_table) = None"
    using orphan_data_file_missing by (simp add: orphan_index_table_def)
  have "\<forall>t\<in>set (sstables ?s). \<forall>k. map_of (files ?s) (data_filename t) = None
          \<longrightarrow> SS_Table_getValue (files ?s) t k = Some (False, [])"
    by (rule C8_loader_does_not_look_for_the_data_file [OF orphan_index_engine,
          THEN conjunct2, THEN conjunct2, THEN conjunct2, THEN conjunct2, THEN conjunct2])
  then have "SS_Table_getValue orphan_index_directory orphan_index_table ''a'' = Some (False, [])"
    using m by simp
  then show ?thesis using orphan_index_engine m by simp
qed

section \<open>Compaction (C4, C1)\<close>

lemma read_records_Nil: "read_records [] m = Some m"
  by (simp add: read_records.simps)

lemma read_records_record:
  assumes "length k0 < 2 ^ 32" and "length v0 < 2 ^ 32"
  shows "read_records (record_bytes (k0, v0) @ rest) m = read_records rest (insert_absent k0 v0 m)"
  using assms
  by (subst read_records.simps) (simp add: record_bytes_def le_nat_u32 Let_def)

lemma read_records_data_bytes:
  "fits32 rs \<Longrightarrow> read_records (data_bytes rs) m = Some (merge_records rs m)"
proof (induction rs arbitrary: m)
  case Nil
  then show ?case by (simp add: read_records_Nil merge_records_def)
next
  case (Cons kv rs)
  obtain k0 v0 where kv: "kv = (k0, v0)" by (cases kv)
  have lens: "length k0 < 2 ^ 32" "length v0 < 2 ^ 32" and f: "fits32 rs"
    using Cons.prems kv by simp_all
  show ?case
    using Cons.IH [OF f] by (simp add: kv read_records_record [OF lens] merge_records_def)
qed

lemma merge_records_append: "merge_records (xs @ ys) m = merge_records ys (merge_records xs m)"
  by (simp add: merge_records_def)

lemma merge_tables_records:
  "\<forall>t\<in>set ts. map_of d (data_filename t) = Some (data_bytes (recs t)) \<and> fits32 (recs t) \<Longrightarrow>
     merge_tables d ts m = Some (merge_records (concat (map recs ts)) m)"
proof (induction ts arbitrary: m)
  case Nil
  then show ?case by (simp add: merge_records_def)
next
  case (Cons t ts)
  then show ?case by (simp add: read_records_data_bytes merge_records_append)
qed

lemma insert_absent_keys: "fst ` set (insert_absent k v m) = insert k (fst ` set m)"
  by (induction k v m rule: insert_absent.induct) auto

lemma insert_absent_sorted:
  "sorted_wrt (<) (map fst m) \<Longrightarrow> sorted_wrt (<) (map fst (insert_absent k v m))"
proof (induction m)
  case Nil
  then show ?case by simp
next
  case (Cons x m)
  obtain k' v' where x: "x = (k', v')" by (cases x)
  show ?case
  proof (cases "k = k'")
    case True
    then show ?thesis using Cons.prems x by simp
  next
    case False
    show ?thesis
    proof (cases "k < k'")
      case True
      then show ?thesis using Cons.prems x False by (auto intro: less_trans)
    next
      case F: False
      then have "k' < k" using False by simp
      moreover have "sorted_wrt (<) (map fst (insert_absent k v m))" using Cons by simp
      moreover have "\<forall>y\<in>fst ` set (insert_absent k v m). k' < y"
        using Cons.prems x \<open>k' < k\<close> by (auto simp: insert_absent_keys)
      ultimately show ?thesis using x False F by simp
    qed
  qed
qed

lemma insert_absent_map:
  "sorted_wrt (<) (map fst m) \<Longrightarrow>
     map_of (insert_absent k v m) = (case map_of m k of None \<Rightarrow> (map_of m)(k \<mapsto> v) | Some v' \<Rightarrow> map_of m)"
proof (induction m)
  case Nil
  then show ?case by simp
next
  case (Cons x m)
  obtain k' v' where x: "x = (k', v')" by (cases x)
  show ?case
  proof (cases "k = k'")
    case True
    then show ?thesis using x by simp
  next
    case False
    show ?thesis
    proof (cases "k < k'")
      case True
      then have "k \<notin> fst ` set m" using Cons.prems x by (auto dest: less_asym)
      then have "map_of m k = None" by (simp add: map_of_eq_None_iff)
      then show ?thesis using x False True by (auto simp: fun_eq_iff)
    next
      case F: False
      have "map_of (insert_absent k v m) = (case map_of m k of None \<Rightarrow> (map_of m)(k \<mapsto> v) | Some v' \<Rightarrow> map_of m)"
        using Cons by simp
      then show ?thesis using x False F by (auto simp: fun_eq_iff split: option.splits)
    qed
  qed
qed

lemma merge_records_sorted:
  "sorted_wrt (<) (map fst m) \<Longrightarrow> sorted_wrt (<) (map fst (merge_records rs m))"
  by (induction rs arbitrary: m) (simp_all add: merge_records_def insert_absent_sorted)

lemma merge_records_map:
  "sorted_wrt (<) (map fst m) \<Longrightarrow>
     map_of (merge_records rs m) k = (case map_of m k of None \<Rightarrow> map_of rs k | Some v \<Rightarrow> Some v)"
proof (induction rs arbitrary: m)
  case Nil
  then show ?case by (simp add: merge_records_def split: option.splits)
next
  case (Cons kv rs)
  have s: "sorted_wrt (<) (map fst (insert_absent (fst kv) (snd kv) m))"
    using Cons.prems by (rule insert_absent_sorted)
  have "merge_records (kv # rs) m = merge_records rs (insert_absent (fst kv) (snd kv) m)"
    by (simp add: merge_records_def)
  then show ?case
    using Cons.IH [OF s] insert_absent_map [OF Cons.prems, of "fst kv" "snd kv"]
    by (cases kv) (auto split: option.splits)
qed

lemma merge_records_keys: "fst ` set (merge_records rs m) = fst ` set rs \<union> fst ` set m"
  by (induction rs arbitrary: m) (auto simp: merge_records_def insert_absent_keys)

lemma fill_memtable_inv:
  "SkipList_inv (skiplist m) \<Longrightarrow> SkipList_inv (skiplist (fill_memtable P coins xs m))"
  by (induction xs arbitrary: m coins) (simp_all add: MemTable_put_def SkipList_put_inv)

lemma fill_memtable_map:
  "SkipList_inv (skiplist m) \<Longrightarrow> [] \<notin> fst ` set xs \<Longrightarrow>
     map_of (MemTable_records (fill_memtable P coins xs m))
       = fold (\<lambda>x f. f(fst x \<mapsto> snd x)) (live xs) (map_of (MemTable_records m))"
proof (induction xs arbitrary: m coins)
  case Nil
  then show ?case by (simp add: live_def)
next
  case (Cons x xs)
  have ne: "fst x \<noteq> []" and rest: "[] \<notin> fst ` set xs" using Cons.prems(2) by auto
  show ?case
  proof (cases "snd x = TOMBSTONE")
    case True
    then show ?thesis using Cons.IH [OF Cons.prems(1) rest] by (simp add: live_def)
  next
    case False
    let ?c = "case coins of [] \<Rightarrow> [] | c # cs \<Rightarrow> c"
    let ?m = "MemTable_put P ?c m (fst x) (snd x)"
    have i: "SkipList_inv (skiplist ?m)"
      using Cons.prems(1) by (simp add: MemTable_put_def SkipList_put_inv)
    have "map_of (MemTable_records ?m) = (map_of (MemTable_records m))(fst x \<mapsto> snd x)"
      using SkipList_put_map [OF Cons.prems(1) ne]
      by (simp add: MemTable_records_kvs MemTable_put_def)
    then show ?thesis using Cons.IH [OF i rest, of "tl coins"] False by (simp add: live_def)
  qed
qed

lemma fold_upd_distinct:
  "distinct (map fst ys) \<Longrightarrow> fold (\<lambda>x f. f(fst x \<mapsto> snd x)) ys f0 = f0 ++ map_of ys"
proof (induction ys arbitrary: f0)
  case Nil
  then show ?case by simp
next
  case (Cons y ys)
  have "fst y \<notin> fst ` set ys" using Cons.prems by simp
  then have n: "map_of ys (fst y) = None" by (simp add: map_of_eq_None_iff)
  have d: "distinct (map fst ys)" using Cons.prems by simp
  have "fold (\<lambda>x f. f(fst x \<mapsto> snd x)) (y # ys) f0 = fold (\<lambda>x f. f(fst x \<mapsto> snd x)) ys (f0(fst y \<mapsto> snd y))"
    by simp
  also have "\<dots> = (f0(fst y \<mapsto> snd y)) ++ map_of ys" by (rule Cons.IH [OF d])
  also have "\<dots> = f0 ++ map_of (y # ys)"
    using n by (cases y) (auto simp: fun_eq_iff map_add_def split: option.splits)
  finally show ?case .
qed

lemma sorted_records_unique:
  fixes xs ys :: "(string \<times> string) list"
  assumes "sorted_wrt (<) (map fst xs)" and "sorted_wrt (<) (map fst ys)"
    and "map_of xs = map_of ys"
  shows "xs = ys"
proof -
  have dx: "distinct (map fst xs)" and dy: "distinct (map fst ys)"
    and sx: "sorted (map fst xs)" and sy: "sorted (map fst ys)"
    using assms(1,2) by (simp_all add: strict_sorted_iff)
  have e: "set xs = set ys" using map_of_inject_set [OF dx dy] assms(3) by simp
  have "inj_on fst (set xs \<union> set ys)" using dx e by (simp add: distinct_map)
  then show ?thesis
    using map_sorted_distinct_set_unique [of fst xs ys] sx sy dx dy e by simp
qed

lemma live_sorted:
  fixes rs :: "(string \<times> string) list"
  shows "sorted_wrt (<) (map fst rs) \<Longrightarrow> sorted_wrt (<) (map fst (live rs))"
  by (simp add: live_def sorted_wrt_map sorted_wrt_filter)

lemma MemTable_records_new: "MemTable_records MemTable_new = []"
  by (simp add: MemTable_records_kvs MemTable_new_def SkipList_new_def kvs_def)

lemma fill_memtable_records:
  assumes s: "sorted_wrt (<) (map fst xs)" and ne: "[] \<notin> fst ` set xs"
  shows "MemTable_records (fill_memtable P coins xs MemTable_new) = live xs"
proof -
  let ?m = "fill_memtable P coins xs MemTable_new"
  have i0: "SkipList_inv (skiplist MemTable_new)" by (simp add: MemTable_new_def SkipList_new_inv)
  have ls: "sorted_wrt (<) (map fst (live xs))" using s by (rule live_sorted)
  then have d: "distinct (map fst (live xs))" by (simp add: strict_sorted_iff)
  have "map_of (MemTable_records ?m) = map_of (live xs)"
    using fill_memtable_map [OF i0 ne, of P coins] fold_upd_distinct [OF d, of "Map.empty"]
    by (simp add: MemTable_records_new)
  moreover have "sorted_wrt (<) (map fst (MemTable_records ?m))"
    using fill_memtable_inv [OF i0] by (rule records_sorted)
  ultimately show ?thesis using ls by (intro sorted_records_unique)
qed

lemma insert_absent_set: "set (insert_absent k v m) \<subseteq> insert (k, v) (set m)"
  by (induction k v m rule: insert_absent.induct) auto

lemma merge_records_set: "set (merge_records rs m) \<subseteq> set rs \<union> set m"
proof (induction rs arbitrary: m)
  case Nil
  then show ?case by (simp add: merge_records_def)
next
  case (Cons kv rs)
  have "merge_records (kv # rs) m = merge_records rs (insert_absent (fst kv) (snd kv) m)"
    by (simp add: merge_records_def)
  then show ?case using Cons [of "insert_absent (fst kv) (snd kv) m"] insert_absent_set [of "fst kv" "snd kv" m]
    by auto
qed

lemma insert_absent_size:
  "length (data_bytes (insert_absent k v m)) \<le> length (data_bytes m) + length (record_bytes (k, v))"
  by (induction k v m rule: insert_absent.induct) auto

lemma merge_records_size:
  "length (data_bytes (merge_records rs m)) \<le> length (data_bytes m) + length (data_bytes rs)"
proof (induction rs arbitrary: m)
  case Nil
  then show ?case by (simp add: merge_records_def)
next
  case (Cons kv rs)
  have "merge_records (kv # rs) m = merge_records rs (insert_absent (fst kv) (snd kv) m)"
    by (simp add: merge_records_def)
  then show ?case
    using Cons [of "insert_absent (fst kv) (snd kv) m"] insert_absent_size [of "fst kv" "snd kv" m]
    by simp
qed

lemma live_size: "length (data_bytes (live rs)) \<le> length (data_bytes rs)"
  by (induction rs) (simp_all add: live_def)

lemma live_fits32: "fits32 rs \<Longrightarrow> fits32 (live rs)"
  by (simp add: fits32_def live_def)

lemma map_of_remove_files:
  "map_of (remove_files ts d) p =
     (if p \<in> index_filename ` set ts \<union> data_filename ` set ts then None else map_of d p)"
  by (induction ts arbitrary: d) (auto simp: delete_conv')

lemma SS_Table_new_index_file:
  assumes "fits32 rs" and "length (data_bytes rs) < 2 ^ 64"
    and ix: "map_of d (f @ INDEX_EXTENSION)
       = Some (u64_bytes ((length rs + 9) div 10) @ concat (map index_entry_bytes (index_of_records rs)))"
  shows "SS_Table_new d f = Some (created_table f rs)"
proof -
  let ?c = "(length rs + 9) div 10"
  let ?ib = "u64_bytes ?c @ concat (map index_entry_bytes (index_of_records rs))"
  have c: "le_nat (take 8 ?ib) = ?c"
    using index_count_small [OF assms(2)] by (simp add: le_nat_u64)
  have r: "read_index_entries ?c (drop 8 ?ib) = Some (index_of_records rs)"
    using read_index_entries_roundtrip [OF index_of_records_fits [OF assms(1,2)], of "[]"] by simp
  have "loadIndex d \<lparr>index_filename = f @ INDEX_EXTENSION, data_filename = f @ DATA_EXTENSION,
          index = [], indexLoaded = False\<rparr>
      = Some (True, \<lparr>index_filename = f @ INDEX_EXTENSION, data_filename = f @ DATA_EXTENSION,
          index = index_of_records rs, indexLoaded = False\<rparr>)"
    unfolding loadIndex_def by (simp only: SS_Table.simps ix option.case c r) simp
  then show ?thesis
    by (simp add: SS_Table_new_def SS_Table_new2_def created_table_def)
qed

lemma map_of_concat_first:
  "i < length xss \<Longrightarrow> k \<in> fst ` set (xss ! i) \<Longrightarrow> \<forall>j<i. k \<notin> fst ` set (xss ! j) \<Longrightarrow>
     map_of (concat xss) k = map_of (xss ! i) k"
proof (induction xss arbitrary: i)
  case Nil
  then show ?case by simp
next
  case (Cons xs xss)
  show ?case
  proof (cases i)
    case 0
    then have "k \<in> fst ` set xs" using Cons.prems(2) by simp
    then obtain v where "map_of xs k = Some v"
      by (metis domD dom_map_of_conv_image_fst)
    then show ?thesis using 0 by (simp add: map_add_def)
  next
    case (Suc i')
    have "k \<notin> fst ` set xs" using Cons.prems(3) Suc by (metis nth_Cons_0 zero_less_Suc)
    then have n: "map_of xs k = None" by (simp add: map_of_eq_None_iff)
    have "map_of (concat xss) k = map_of (xss ! i') k"
    proof (rule Cons.IH)
      show "i' < length xss" using Cons.prems(1) Suc by simp
      show "k \<in> fst ` set (xss ! i')" using Cons.prems(2) Suc by simp
      show "\<forall>j<i'. k \<notin> fst ` set (xss ! j)"
        using Cons.prems(3) Suc by (metis Suc_less_eq nth_Cons_Suc)
    qed
    then show ?thesis using Suc n by (simp add: map_add_def)
  qed
qed

lemma compaction_result:
  assumes len: "MAX_SSTABLE_COUNT \<le> length (sstables s)"
    and batch: "batch = sort_key index_filename (take MAX_SSTABLE_COUNT (sstables s))"
    and recs: "\<forall>t\<in>set batch. map_of (files s) (data_filename t) = Some (data_bytes (recs t))
         \<and> fits32 (recs t) \<and> [] \<notin> fst ` set (recs t)"
    and small: "length (data_bytes (concat (map recs batch))) < 2 ^ 64"
    and fresh: "\<forall>t\<in>set batch. sstable_filename ts @ INDEX_EXTENSION \<noteq> index_filename t
         \<and> sstable_filename ts @ INDEX_EXTENSION \<noteq> data_filename t
         \<and> sstable_filename ts @ DATA_EXTENSION \<noteq> index_filename t
         \<and> sstable_filename ts @ DATA_EXTENSION \<noteq> data_filename t"
    and merged: "merged = merge_records (concat (map recs batch)) []"
  shows "merge_tables (files s) batch [] = Some merged"
    and "\<exists>d. perform_compaction P coins True True ts s
       = Some (s\<lparr>sstables := drop MAX_SSTABLE_COUNT (sstables s)
                    @ [created_table (sstable_filename ts) (live merged)], files := d\<rparr>)
       \<and> map_of d (sstable_filename ts @ DATA_EXTENSION) = Some (data_bytes (live merged))"
    and "fits32 (live merged)"
    and "length (data_bytes (live merged)) \<le> length (data_bytes (concat (map recs batch)))"
proof -
  let ?f = "sstable_filename ts"
  let ?all = "concat (map recs batch)"
  let ?m = "fill_memtable P coins merged MemTable_new"
  show mt: "merge_tables (files s) batch [] = Some merged"
    using recs by (simp add: merge_tables_records merged)
  have srt: "sorted_wrt (<) (map fst merged)"
    unfolding merged by (rule merge_records_sorted) simp
  have "fst ` set merged = fst ` set ?all" by (simp add: merged merge_records_keys)
  then have ne: "[] \<notin> fst ` set merged" using recs by auto
  have rm: "MemTable_records ?m = live merged" using srt ne by (rule fill_memtable_records)
  have "fits32 ?all" using recs by (auto simp: fits32_def)
  moreover have "set merged \<subseteq> set ?all" using merge_records_set [of ?all "[]"] by (simp add: merged)
  ultimately have "fits32 merged" unfolding fits32_def by blast
  then show f32: "fits32 (live merged)" by (rule live_fits32)
  have "length (data_bytes merged) \<le> length (data_bytes ?all)"
    using merge_records_size [of ?all "[]"] by (simp add: merged)
  then show le: "length (data_bytes (live merged)) \<le> length (data_bytes ?all)"
    using live_size [of merged] by simp
  then have sm: "length (data_bytes (live merged)) < 2 ^ 64" using small by simp
  let ?ib = "u64_bytes ((length (live merged) + 9) div 10)
            @ concat (map index_entry_bytes (index_of_records (live merged)))"
  let ?d = "AList.update (?f @ DATA_EXTENSION) (data_bytes (live merged))
        (AList.update (?f @ INDEX_EXTENSION) ?ib (files s))"
  have cr: "createFromMemTable True True (files s) ?f ?m = (True, ?d)"
    using createFromMemTable_files [of ?m "files s" ?f] f32 sm by (simp add: rm)
  let ?d' = "remove_files batch ?d"
  have ix: "map_of ?d' (?f @ INDEX_EXTENSION) = Some ?ib"
    using fresh by (auto simp: map_of_remove_files update_conv' extensions_differ)
  have dt: "map_of ?d' (?f @ DATA_EXTENSION) = Some (data_bytes (live merged))"
    using fresh by (auto simp: map_of_remove_files update_conv')
  have new: "SS_Table_new ?d' ?f = Some (created_table ?f (live merged))"
    using f32 sm ix by (rule SS_Table_new_index_file)
  have nonempty: "take MAX_SSTABLE_COUNT (sstables s) \<noteq> []"
    using len by (auto simp: MAX_SSTABLE_COUNT_def)
  have "perform_compaction P coins True True ts s
       = Some (s\<lparr>sstables := drop MAX_SSTABLE_COUNT (sstables s)
                    @ [created_table ?f (live merged)], files := ?d'\<rparr>)"
    unfolding perform_compaction_def using len nonempty mt cr new
    by (simp add: Let_def batch [symmetric])
  then show "\<exists>d. perform_compaction P coins True True ts s
       = Some (s\<lparr>sstables := drop MAX_SSTABLE_COUNT (sstables s)
                    @ [created_table (sstable_filename ts) (live merged)], files := d\<rparr>)
       \<and> map_of d (sstable_filename ts @ DATA_EXTENSION) = Some (data_bytes (live merged))"
    using dt by blast
qed

lemma to_string_digit: "n < 10 \<Longrightarrow> length (to_string n) = 1"
  by (simp add: to_string.simps)

lemma to_string_more: "10 \<le> n \<Longrightarrow> length (to_string n) = Suc (length (to_string (n div 10)))"
  by (subst to_string.simps) simp

lemma to_string_four:
  assumes "1000 \<le> n" and "n < 10000"
  shows "length (to_string n) = 4"
proof -
  have a: "10 \<le> n" "10 \<le> n div 10" "10 \<le> n div 10 div 10" "n div 10 div 10 div 10 < 10"
    using assms by simp_all
  show ?thesis
    by (simp add: to_string_more [OF a(1)] to_string_more [OF a(2)] to_string_more [OF a(3)]
        to_string_digit [OF a(4)])
qed

lemma to_string_six:
  assumes "100000 \<le> n" and "n < 1000000"
  shows "length (to_string n) = 6"
proof -
  have a: "10 \<le> n" "10 \<le> n div 10" "10 \<le> n div 10 div 10" "10 \<le> n div 10 div 10 div 10"
    "10 \<le> n div 10 div 10 div 10 div 10" "n div 10 div 10 div 10 div 10 div 10 < 10"
    using assms by simp_all
  show ?thesis
    by (simp add: to_string_more [OF a(1)] to_string_more [OF a(2)] to_string_more [OF a(3)]
        to_string_more [OF a(4)] to_string_more [OF a(5)] to_string_digit [OF a(6)])
qed

lemma old_name_neq:
  assumes "i < MAX_SSTABLE_COUNT" and "100000 \<le> n" and "n < 1000000"
  shows "sstable_filename n \<noteq> sstable_filename (1000 + i)"
proof -
  have "length (to_string (1000 + i)) = 4"
    using assms(1) by (intro to_string_four) (simp_all add: MAX_SSTABLE_COUNT_def)
  moreover have "length (to_string n) = 6" using assms(2,3) by (rule to_string_six)
  ultimately have "to_string n \<noteq> to_string (1000 + i)" by auto
  then show ?thesis by (simp add: sstable_filename_def)
qed

lemma index_name_not_data_name: "f @ INDEX_EXTENSION \<noteq> g @ DATA_EXTENSION"
proof
  assume "f @ INDEX_EXTENSION = g @ DATA_EXTENSION"
  then have "last (f @ INDEX_EXTENSION) = last (g @ DATA_EXTENSION)" by simp
  then show False by (simp add: INDEX_EXTENSION_def DATA_EXTENSION_def)
qed

lemma map_of_same_content:
  "map_of (map (\<lambda>i. (g i, c)) xs @ rest) p = (if p \<in> g ` set xs then Some c else map_of rest p)"
  by (induction xs) auto

lemma map_of_other_names:
  "p \<notin> g ` set xs \<Longrightarrow> map_of (map (\<lambda>i. (g i, c i)) xs @ rest) p = map_of rest p"
  by (induction xs) auto

lemma overdue_batch: "take MAX_SSTABLE_COUNT (sstables overdue_engine) = map old_table [0..<MAX_SSTABLE_COUNT]"
  by (simp add: overdue_engine_def)

lemma overdue_rest: "drop MAX_SSTABLE_COUNT (sstables overdue_engine) = [new_table]"
  by (simp add: overdue_engine_def)

lemma overdue_old_data:
  assumes "i < MAX_SSTABLE_COUNT"
  shows "map_of (files overdue_engine) (data_filename (old_table i)) = Some (data_bytes [(''k'', ''old'')])"
proof -
  have "sstable_filename (1000 + i) @ DATA_EXTENSION
      \<in> (\<lambda>i. sstable_filename (1000 + i) @ DATA_EXTENSION) ` set [0..<MAX_SSTABLE_COUNT]"
    using assms by simp
  then show ?thesis
    unfolding overdue_engine_def table_files_def old_table_def
    by (simp only: LSMTree.simps fst_conv snd_conv created_table_simps map_of_same_content if_True)
qed

lemma overdue_new_data:
  "map_of (files overdue_engine) (data_filename new_table) = Some (data_bytes [(''k'', ''new'')])"
proof -
  have 1: "sstable_filename 200000 @ DATA_EXTENSION
      \<notin> (\<lambda>i. sstable_filename (1000 + i) @ DATA_EXTENSION) ` set [0..<MAX_SSTABLE_COUNT]"
  proof -
    have n: "\<And>i. i < MAX_SSTABLE_COUNT \<Longrightarrow> sstable_filename 200000 \<noteq> sstable_filename (1000 + i)"
      by (rule old_name_neq) simp_all
    show ?thesis
    proof
      assume "sstable_filename 200000 @ DATA_EXTENSION
        \<in> (\<lambda>i. sstable_filename (1000 + i) @ DATA_EXTENSION) ` set [0..<MAX_SSTABLE_COUNT]"
      then obtain i where "i < MAX_SSTABLE_COUNT"
        and "sstable_filename 200000 = sstable_filename (1000 + i)" by auto
      then show False using n by blast
    qed
  qed
  have 2: "sstable_filename 200000 @ DATA_EXTENSION
      \<notin> (\<lambda>i. sstable_filename (1000 + i) @ INDEX_EXTENSION) ` set [0..<MAX_SSTABLE_COUNT]"
    by (auto simp: index_name_not_data_name [THEN not_sym])
  show ?thesis
    unfolding overdue_engine_def table_files_def new_table_def
    by (simp only: LSMTree.simps fst_conv snd_conv created_table_simps map_of_other_names [OF 1]
        map_of_other_names [OF 2]) simp
qed

lemma same_records_size:
  "length (data_bytes (concat (map (\<lambda>t. rs) xs))) = length xs * length (data_bytes rs)"
  by (induction xs) (simp_all add: data_bytes_append)

lemma same_records_merged:
  "xs \<noteq> [] \<Longrightarrow> merge_records (concat (map (\<lambda>t. [(k, v)]) xs)) [] = [(k, v)]"
proof -
  have "merge_records (concat (map (\<lambda>t. [(k, v)]) xs)) [(k, v)] = [(k, v)]" for xs :: "'a list"
    by (induction xs) (simp_all add: merge_records_def)
  then show "xs \<noteq> [] \<Longrightarrow> merge_records (concat (map (\<lambda>t. [(k, v)]) xs)) [] = [(k, v)]"
    by (cases xs) (simp_all add: merge_records_def)
qed

lemma overdue_get: "LSMTree_get overdue_engine ''k'' = Some (True, ''new'')"
proof -
  have "SS_Table_getValue (files overdue_engine) new_table ''k''
      = Some (lookup_result (map_of [(''k'', ''new'')] ''k''))"
    unfolding new_table_def
    by (rule getValue_created)
      (simp_all add: overdue_new_data [unfolded new_table_def created_table_simps] record_bytes_def)
  then have "SS_Table_getValue (files overdue_engine) new_table ''k'' = Some (True, ''new'')"
    by (simp add: lookup_result_def TOMBSTONE_def)
  then show ?thesis
    by (simp add: LSMTree_get_first layer_answers_def MemTable_get_new)
      (simp add: overdue_engine_def MemTable_get_new TOMBSTONE_nonempty [symmetric])
qed

lemma overdue_length: "MAX_SSTABLE_COUNT \<le> length (sstables overdue_engine)"
  by (simp add: overdue_engine_def)

lemma overdue_batch_set:
  "set (sort_key index_filename (take MAX_SSTABLE_COUNT (sstables overdue_engine)))
     = old_table ` {0..<MAX_SSTABLE_COUNT}"
  by (simp add: overdue_batch)

lemma overdue_records:
  "\<forall>t\<in>set (sort_key index_filename (take MAX_SSTABLE_COUNT (sstables overdue_engine))).
      map_of (files overdue_engine) (data_filename t) = Some (data_bytes ((\<lambda>t. [(''k'', ''old'')]) t))
      \<and> fits32 ((\<lambda>t. [(''k'', ''old'')]) t) \<and> [] \<notin> fst ` set ((\<lambda>t. [(''k'', ''old'')]) t)"
  unfolding overdue_batch_set by (simp add: overdue_old_data)

lemma overdue_small:
  "length (data_bytes (concat (map (\<lambda>t. [(''k'', ''old'')])
      (sort_key index_filename (take MAX_SSTABLE_COUNT (sstables overdue_engine)))))) < 2 ^ 64"
proof -
  let ?batch = "sort_key index_filename (take MAX_SSTABLE_COUNT (sstables overdue_engine))"
  have l: "length ?batch = 100" by (simp add: overdue_batch) (simp add: MAX_SSTABLE_COUNT_def)
  have "length (data_bytes (concat (map (\<lambda>t. [(''k'', ''old'')]) ?batch)))
      = length ?batch * length (data_bytes [(''k'', ''old'')])"
    by (rule same_records_size)
  then show ?thesis unfolding l by (simp add: record_bytes_def)
qed

lemma overdue_fresh:
  "\<forall>t\<in>set (sort_key index_filename (take MAX_SSTABLE_COUNT (sstables overdue_engine))).
      sstable_filename 300000 @ INDEX_EXTENSION \<noteq> index_filename t
      \<and> sstable_filename 300000 @ INDEX_EXTENSION \<noteq> data_filename t
      \<and> sstable_filename 300000 @ DATA_EXTENSION \<noteq> index_filename t
      \<and> sstable_filename 300000 @ DATA_EXTENSION \<noteq> data_filename t"
proof -
  have n: "\<And>i. i < MAX_SSTABLE_COUNT \<Longrightarrow> sstable_filename 300000 \<noteq> sstable_filename (1000 + i)"
    by (rule old_name_neq) simp_all
  show ?thesis
    unfolding overdue_batch_set
    by (simp add: old_table_def n index_name_not_data_name index_name_not_data_name [THEN not_sym])
qed

lemma overdue_merged:
  "merge_records (concat (map (\<lambda>t. [(''k'', ''old'')])
      (sort_key index_filename (take MAX_SSTABLE_COUNT (sstables overdue_engine))))) [] = [(''k'', ''old'')]"
proof (rule same_records_merged)
  let ?batch = "sort_key index_filename (take MAX_SSTABLE_COUNT (sstables overdue_engine))"
  have "old_table 0 \<in> set ?batch"
    unfolding overdue_batch_set by (simp add: MAX_SSTABLE_COUNT_def)
  then show "?batch \<noteq> []" by (metis empty_iff empty_set)
qed

lemma live_example: "live [(''k'', ''old'')] = [(''k'', ''old'')]"
  by (simp add: live_def TOMBSTONE_def)

lemma overdue_compacted:
  "\<exists>d. perform_compaction libstdcxx [] True True 300000 overdue_engine
       = Some (overdue_engine\<lparr>sstables := [new_table, created_table (sstable_filename 300000) [(''k'', ''old'')]],
            files := d\<rparr>)
       \<and> map_of d (sstable_filename 300000 @ DATA_EXTENSION) = Some (data_bytes [(''k'', ''old'')])"
  using compaction_result(2) [OF overdue_length refl overdue_records overdue_small overdue_fresh
      overdue_merged [symmetric], where P = libstdcxx and coins = "[]"]
  by (simp add: live_example overdue_rest)

lemma overdue_get_compacted:
  "Option.bind (step libstdcxx overdue_engine (Compact [] True True 300000)) (\<lambda>s'. LSMTree_get s' ''k'')
     = Some (True, ''old'')"
proof -
  obtain d where c: "perform_compaction libstdcxx [] True True 300000 overdue_engine
       = Some (overdue_engine\<lparr>sstables := [new_table, created_table (sstable_filename 300000) [(''k'', ''old'')]],
            files := d\<rparr>)"
    and d: "map_of d (sstable_filename 300000 @ DATA_EXTENSION) = Some (data_bytes [(''k'', ''old'')])"
    using overdue_compacted by blast
  have "SS_Table_getValue d (created_table (sstable_filename 300000) [(''k'', ''old'')]) ''k''
      = Some (lookup_result (map_of [(''k'', ''old'')] ''k''))"
    by (rule getValue_created) (simp_all add: d record_bytes_def)
  then have g: "SS_Table_getValue d (created_table (sstable_filename 300000) [(''k'', ''old'')]) ''k''
      = Some (True, ''old'')"
    by (simp add: lookup_result_def TOMBSTONE_def)
  have "LSMTree_get (overdue_engine\<lparr>sstables := [new_table, created_table (sstable_filename 300000) [(''k'', ''old'')]],
            files := d\<rparr>) ''k'' = Some (True, ''old'')"
    by (simp add: LSMTree_get_first layer_answers_def g)
      (simp add: overdue_engine_def MemTable_get_new TOMBSTONE_nonempty [symmetric])
  then show ?thesis by (simp add: c)
qed

text \<open>
  Claim C1 (newest wins across layers; compaction leaves every answer of \<^verbatim>\<open>get\<close>
  unchanged) fails in the code. In the engine \<^const>\<open>overdue_engine\<close> the most recent put of the
  key \<open>k\<close> wrote \<open>new\<close>, and \<^verbatim>\<open>get(k)\<close> answers \<open>new\<close>, from the newest SSTable. One
  compaction pass merges the hundred oldest tables, which hold \<open>old\<close>, and appends the
  merged table at the newest end of the list, behind the table that holds \<open>new\<close>; since
  \<^verbatim>\<open>get\<close> reads the list from the newest end, \<^verbatim>\<open>get(k)\<close> answers \<open>old\<close> after the pass.
\<close>

theorem C1_compaction_brings_back_the_old_value:
  "LSMTree_get overdue_engine ''k'' = Some (True, ''new'')
   \<and> Option.bind (step libstdcxx overdue_engine (Compact [] True True 300000)) (\<lambda>s'. LSMTree_get s' ''k'')
       = Some (True, ''old'')"
  using overdue_get overdue_get_compacted by simp

text \<open>
  Claim C4: the merge of a compaction pass. Let the engine hold at least
  \<^const>\<open>MAX_SSTABLE_COUNT\<close> SSTables, let \<open>batch\<close> be the oldest \<^const>\<open>MAX_SSTABLE_COUNT\<close>
  of them sorted by index file name, and let the data file of every table \<open>t\<close> of the
  batch hold the records \<open>recs t\<close> one after the other, with keys and values that fit the
  32-bit size fields of the format and no empty key (the engine never writes one: no
  node of a skip list holds the empty key). Let all the records of the batch together be
  below \<open>2 ^ 64\<close> bytes (the range of the offsets of the index), let the name made from the
  time of the pass be none of the names of the batch (the time is later than the times
  of the batch), and let the two output files open. Then the merged map has exactly the
  keys of the batch, each once and in ascending order; for every key of the batch its
  value is the one of the first table of the batch, in the sorted order, whose data file
  holds the key (within a data file, the first record with the key), so a key once in the
  map is never overwritten; the pass succeeds; the new data file holds the entries of the
  merged map whose value is not the tombstone, in ascending key order; and the new table
  is appended at the end of the list of SSTables.
\<close>

theorem C4_compaction_first_write_wins:
  assumes len: "MAX_SSTABLE_COUNT \<le> length (sstables s)"
    and batch: "batch = sort_key index_filename (take MAX_SSTABLE_COUNT (sstables s))"
    and recs: "\<forall>t\<in>set batch. map_of (files s) (data_filename t) = Some (data_bytes (recs t))
         \<and> fits32 (recs t) \<and> [] \<notin> fst ` set (recs t)"
    and small: "length (data_bytes (concat (map recs batch))) < 2 ^ 64"
    and fresh: "\<forall>t\<in>set batch. sstable_filename ts @ INDEX_EXTENSION \<noteq> index_filename t
         \<and> sstable_filename ts @ INDEX_EXTENSION \<noteq> data_filename t
         \<and> sstable_filename ts @ DATA_EXTENSION \<noteq> index_filename t
         \<and> sstable_filename ts @ DATA_EXTENSION \<noteq> data_filename t"
  shows "\<exists>merged s'. merge_tables (files s) batch [] = Some merged
      \<and> fst ` set merged = (\<Union>t\<in>set batch. fst ` set (recs t))
      \<and> sorted_wrt (<) (map fst merged)
      \<and> (\<forall>i<length batch. \<forall>k\<in>fst ` set (recs (batch ! i)).
            (\<forall>j<i. k \<notin> fst ` set (recs (batch ! j))) \<longrightarrow> map_of merged k = map_of (recs (batch ! i)) k)
      \<and> perform_compaction P coins True True ts s = Some s'
      \<and> map_of (files s') (sstable_filename ts @ DATA_EXTENSION)
          = Some (data_bytes (filter (\<lambda>kv. snd kv \<noteq> TOMBSTONE) merged))
      \<and> sstables s' = drop MAX_SSTABLE_COUNT (sstables s)
          @ [created_table (sstable_filename ts) (filter (\<lambda>kv. snd kv \<noteq> TOMBSTONE) merged)]"
proof -
  define merged where "merged = merge_records (concat (map recs batch)) []"
  note r = compaction_result(1) [OF len batch recs small fresh merged_def]
    compaction_result(2) [OF len batch recs small fresh merged_def, where P = P and coins = coins]
  obtain d where c: "perform_compaction P coins True True ts s
       = Some (s\<lparr>sstables := drop MAX_SSTABLE_COUNT (sstables s)
                    @ [created_table (sstable_filename ts) (live merged)], files := d\<rparr>)"
    and d: "map_of d (sstable_filename ts @ DATA_EXTENSION) = Some (data_bytes (live merged))"
    using r(2) by blast
  let ?s' = "s\<lparr>sstables := drop MAX_SSTABLE_COUNT (sstables s)
                    @ [created_table (sstable_filename ts) (live merged)], files := d\<rparr>"
  have 1: "merge_tables (files s) batch [] = Some merged" by (rule r(1))
  have 2: "fst ` set merged = (\<Union>t\<in>set batch. fst ` set (recs t))"
    by (auto simp: merged_def merge_records_keys)
  have 3: "sorted_wrt (<) (map fst merged)"
    unfolding merged_def by (rule merge_records_sorted) simp
  have m: "map_of merged k = map_of (concat (map recs batch)) k" for k
    unfolding merged_def by (simp add: merge_records_map)
  have 4: "\<forall>i<length batch. \<forall>k\<in>fst ` set (recs (batch ! i)).
            (\<forall>j<i. k \<notin> fst ` set (recs (batch ! j))) \<longrightarrow> map_of merged k = map_of (recs (batch ! i)) k"
  proof (intro allI impI ballI)
    fix i k
    assume i: "i < length batch" and k: "k \<in> fst ` set (recs (batch ! i))"
      and first: "\<forall>j<i. k \<notin> fst ` set (recs (batch ! j))"
    have "map_of (concat (map recs batch)) k = map_of (map recs batch ! i) k"
      using i k first by (intro map_of_concat_first) simp_all
    then show "map_of merged k = map_of (recs (batch ! i)) k" using i by (simp add: m)
  qed
  have 5: "perform_compaction P coins True True ts s = Some ?s'" by (rule c)
  have 6: "map_of (files ?s') (sstable_filename ts @ DATA_EXTENSION)
          = Some (data_bytes (filter (\<lambda>kv. snd kv \<noteq> TOMBSTONE) merged))"
    using d by (simp add: live_def)
  have 7: "sstables ?s' = drop MAX_SSTABLE_COUNT (sstables s)
          @ [created_table (sstable_filename ts) (filter (\<lambda>kv. snd kv \<noteq> TOMBSTONE) merged)]"
    by (simp add: live_def)
  show ?thesis
    apply (rule exI [of _ merged])
    apply (rule exI [of _ ?s'])
    apply (intro conjI)
          apply (rule 1)
         apply (rule 2)
        apply (rule 3)
       apply (rule 4)
      apply (rule 5)
     apply (rule 6)
    apply (rule 7)
    done
qed

theorem C4_compaction_first_write_wins_witness:
  "MAX_SSTABLE_COUNT \<le> length (sstables overdue_engine)
   \<and> (\<exists>s'. merge_tables (files overdue_engine)
             (sort_key index_filename (take MAX_SSTABLE_COUNT (sstables overdue_engine))) []
           = Some [(''k'', ''old'')]
         \<and> perform_compaction libstdcxx [] True True 300000 overdue_engine = Some s'
         \<and> map_of (files s') (sstable_filename 300000 @ DATA_EXTENSION) = Some (data_bytes [(''k'', ''old'')])
         \<and> sstables s' = [new_table, created_table (sstable_filename 300000) [(''k'', ''old'')]])"
proof -
  let ?batch = "sort_key index_filename (take MAX_SSTABLE_COUNT (sstables overdue_engine))"
  have "\<exists>merged s'. merge_tables (files overdue_engine) ?batch [] = Some merged
      \<and> fst ` set merged = (\<Union>t\<in>set ?batch. fst ` set [(''k'', ''old'')])
      \<and> sorted_wrt (<) (map fst merged)
      \<and> (\<forall>i<length ?batch. \<forall>k\<in>fst ` set [(''k'', ''old'')].
            (\<forall>j<i. k \<notin> fst ` set [(''k'', ''old'')]) \<longrightarrow> map_of merged k = map_of [(''k'', ''old'')] k)
      \<and> perform_compaction libstdcxx [] True True 300000 overdue_engine = Some s'
      \<and> map_of (files s') (sstable_filename 300000 @ DATA_EXTENSION)
          = Some (data_bytes (filter (\<lambda>kv. snd kv \<noteq> TOMBSTONE) merged))
      \<and> sstables s' = drop MAX_SSTABLE_COUNT (sstables overdue_engine)
          @ [created_table (sstable_filename 300000) (filter (\<lambda>kv. snd kv \<noteq> TOMBSTONE) merged)]"
    by (rule C4_compaction_first_write_wins [OF overdue_length refl overdue_records overdue_small
        overdue_fresh])
  then obtain merged s' where a: "merge_tables (files overdue_engine) ?batch [] = Some merged
      \<and> fst ` set merged = (\<Union>t\<in>set ?batch. fst ` set [(''k'', ''old'')])
      \<and> sorted_wrt (<) (map fst merged)
      \<and> (\<forall>i<length ?batch. \<forall>k\<in>fst ` set [(''k'', ''old'')].
            (\<forall>j<i. k \<notin> fst ` set [(''k'', ''old'')]) \<longrightarrow> map_of merged k = map_of [(''k'', ''old'')] k)
      \<and> perform_compaction libstdcxx [] True True 300000 overdue_engine = Some s'
      \<and> map_of (files s') (sstable_filename 300000 @ DATA_EXTENSION)
          = Some (data_bytes (filter (\<lambda>kv. snd kv \<noteq> TOMBSTONE) merged))
      \<and> sstables s' = drop MAX_SSTABLE_COUNT (sstables overdue_engine)
          @ [created_table (sstable_filename 300000) (filter (\<lambda>kv. snd kv \<noteq> TOMBSTONE) merged)]"
    by (elim exE)
  note 1 = a [THEN conjunct1]
  note b = a [THEN conjunct2, THEN conjunct2, THEN conjunct2, THEN conjunct2]
  note 5 = b [THEN conjunct1]
  note 6 = b [THEN conjunct2, THEN conjunct1]
  note 7 = b [THEN conjunct2, THEN conjunct2]
  have "\<forall>t\<in>set ?batch. map_of (files overdue_engine) (data_filename t)
        = Some (data_bytes ((\<lambda>t. [(''k'', ''old'')]) t)) \<and> fits32 ((\<lambda>t. [(''k'', ''old'')]) t)"
    using overdue_records by blast
  then have "merge_tables (files overdue_engine) ?batch []
      = Some (merge_records (concat (map (\<lambda>t. [(''k'', ''old'')]) ?batch)) [])"
    by (rule merge_tables_records)
  then have "merge_tables (files overdue_engine) ?batch [] = Some [(''k'', ''old'')]"
    unfolding overdue_merged .
  then have m: "merged = [(''k'', ''old'')]" using 1 by simp
  have f: "filter (\<lambda>kv. snd kv \<noteq> TOMBSTONE) [(''k'', ''old'')] = [(''k'', ''old'')]"
    by (simp add: TOMBSTONE_def)
  have m6: "map_of (files s') (sstable_filename 300000 @ DATA_EXTENSION) = Some (data_bytes [(''k'', ''old'')])"
    using 6 unfolding m f .
  have m7: "sstables s' = [new_table, created_table (sstable_filename 300000) [(''k'', ''old'')]]"
    using 7 unfolding m f overdue_rest by simp
  have m1: "merge_tables (files overdue_engine) ?batch [] = Some [(''k'', ''old'')]"
    using 1 unfolding m .
  show ?thesis
    apply (rule conjI)
     apply (rule overdue_length)
    apply (rule exI [of _ s'])
    apply (intro conjI)
       apply (rule m1)
      apply (rule 5)
     apply (rule m6)
    apply (rule m7)
    done
qed

end
